theory Spec2Isabelle
  imports Complex_Main "HOL-Library.List_Lexorder" "HOL-Library.Sublist" "HOL-Library.Code_Target_Nat"
begin

section \<open>Text and the string primitives of the host language\<close>

text \<open>
  A text is a sequence of Unicode code points, as a Python \<open>str\<close> is. Literals of the
  source are written with \<open>u\<close>; the non-ASCII literals of the source (bullets and
  dashes) are given by their code points.

  Whitespace (\<open>str.isspace\<close>, \<open>str.split()\<close>, \<open>str.strip()\<close> and the class
  \<open>\s\<close>) is the full Unicode set. Letter case and decimal digits follow Python on
  ASCII: a code point above 127 is taken to be caseless and not a digit.
\<close>

type_synonym ustr = "nat list"

definition u :: "string \<Rightarrow> ustr" where
  "u s = map of_char s"

definition ch :: "char \<Rightarrow> nat" where
  "ch c = of_char c"

definition py_isspace :: "nat \<Rightarrow> bool" where
  "py_isspace c \<longleftrightarrow>
     (9 \<le> c \<and> c \<le> 13) \<or> (28 \<le> c \<and> c \<le> 32) \<or> c = 133 \<or> c = 160 \<or> c = 5760 \<or>
     (8192 \<le> c \<and> c \<le> 8202) \<or> c = 8232 \<or> c = 8233 \<or> c = 8239 \<or> c = 8287 \<or> c = 12288"

definition is_upper_ch :: "nat \<Rightarrow> bool" where
  "is_upper_ch c \<longleftrightarrow> 65 \<le> c \<and> c \<le> 90"

definition is_lower_ch :: "nat \<Rightarrow> bool" where
  "is_lower_ch c \<longleftrightarrow> 97 \<le> c \<and> c \<le> 122"

definition is_cased_ch :: "nat \<Rightarrow> bool" where
  "is_cased_ch c \<longleftrightarrow> is_upper_ch c \<or> is_lower_ch c"

definition is_digit_ch :: "nat \<Rightarrow> bool" where
  "is_digit_ch c \<longleftrightarrow> 48 \<le> c \<and> c \<le> 57"

definition lower_ch :: "nat \<Rightarrow> nat" where
  "lower_ch c = (if is_upper_ch c then c + 32 else c)"

definition upper_ch :: "nat \<Rightarrow> nat" where
  "upper_ch c = (if is_lower_ch c then c - 32 else c)"

definition py_lower :: "ustr \<Rightarrow> ustr" where
  "py_lower s = map lower_ch s"

text \<open>\<open>str.split()\<close> with no argument: the maximal runs of non-whitespace.\<close>

fun split_acc :: "ustr \<Rightarrow> ustr \<Rightarrow> ustr list" where
  "split_acc cur [] = (if cur = [] then [] else [cur])"
| "split_acc cur (c # cs) =
     (if py_isspace c then (if cur = [] then split_acc [] cs else cur # split_acc [] cs)
      else split_acc (cur @ [c]) cs)"

definition py_split :: "ustr \<Rightarrow> ustr list" where
  "py_split s = split_acc [] s"

fun py_join :: "ustr \<Rightarrow> ustr list \<Rightarrow> ustr" where
  "py_join sep [] = []"
| "py_join sep [x] = x"
| "py_join sep (x # y # ys) = x @ sep @ py_join sep (y # ys)"

section \<open>Duplicate word removal\<close>

text \<open>The loop of \<open>remove_duplicate_words\<close>: the words still to visit, \<open>seen\<close>, \<open>out\<close>.
  The argument is a string by its type, so the pass-through of other values has no
  counterpart here.\<close>

fun dedup_loop :: "ustr list \<Rightarrow> ustr list \<Rightarrow> ustr list \<Rightarrow> ustr list" where
  "dedup_loop [] seen out = out"
| "dedup_loop (w # ws) seen out =
     (let lw = py_lower w
      in if lw \<notin> set seen then dedup_loop ws (seen @ [lw]) (out @ [w])
         else dedup_loop ws seen out)"

definition remove_duplicate_words :: "ustr \<Rightarrow> ustr" where
  "remove_duplicate_words text = py_join (u '' '') (dedup_loop (py_split text) [] [])"


section \<open>Further string primitives\<close>

definition py_strip :: "ustr \<Rightarrow> ustr" where
  "py_strip s = rev (dropWhile py_isspace (rev (dropWhile py_isspace s)))"

definition py_lstrip_chars :: "ustr \<Rightarrow> ustr \<Rightarrow> ustr" where
  "py_lstrip_chars cs s = dropWhile (\<lambda>c. c \<in> set cs) s"

definition py_strip_chars :: "ustr \<Rightarrow> ustr \<Rightarrow> ustr" where
  "py_strip_chars cs s =
     rev (dropWhile (\<lambda>c. c \<in> set cs) (rev (dropWhile (\<lambda>c. c \<in> set cs) s)))"

definition py_startswith :: "ustr \<Rightarrow> ustr \<Rightarrow> bool" where
  "py_startswith s p \<longleftrightarrow> take (length p) s = p"

definition startswith_any :: "ustr \<Rightarrow> ustr list \<Rightarrow> bool" where
  "startswith_any s ps = list_ex (py_startswith s) ps"

text \<open>\<open>sub in s\<close> on strings.\<close>

fun py_contains :: "ustr \<Rightarrow> ustr \<Rightarrow> bool" where
  "py_contains sub [] = (sub = [])"
| "py_contains sub (c # cs) = (py_startswith (c # cs) sub \<or> py_contains sub cs)"

text \<open>\<open>s.replace(old, new)\<close> for a one-character \<open>old\<close>.\<close>

definition py_replace_char :: "nat \<Rightarrow> ustr \<Rightarrow> ustr \<Rightarrow> ustr" where
  "py_replace_char old new s = concat (map (\<lambda>c. if c = old then new else [c]) s)"

definition py_isupper :: "ustr \<Rightarrow> bool" where
  "py_isupper s \<longleftrightarrow> list_ex is_cased_ch s \<and> \<not> list_ex is_lower_ch s"

fun title_aux :: "bool \<Rightarrow> ustr \<Rightarrow> ustr" where
  "title_aux prev_cased [] = []"
| "title_aux prev_cased (c # cs) =
     (if is_cased_ch c then (if prev_cased then lower_ch c else upper_ch c) # title_aux True cs
      else c # title_aux False cs)"

definition py_title :: "ustr \<Rightarrow> ustr" where
  "py_title s = title_aux False s"

definition is_linebreak :: "nat \<Rightarrow> bool" where
  "is_linebreak c \<longleftrightarrow> c \<in> {10, 11, 12, 13, 28, 29, 30, 133, 8232, 8233}"

text \<open>\<open>str.splitlines()\<close>: \<open>\r\n\<close> is one boundary, no empty last line.\<close>

fun splitlines_acc :: "ustr \<Rightarrow> ustr \<Rightarrow> ustr list" where
  "splitlines_acc cur [] = (if cur = [] then [] else [cur])"
| "splitlines_acc cur [c] = (if is_linebreak c then [cur] else [cur @ [c]])"
| "splitlines_acc cur (c # d # ds) =
     (if c = 13 \<and> d = 10 then cur # splitlines_acc [] ds
      else if is_linebreak c then cur # splitlines_acc [] (d # ds)
      else splitlines_acc (cur @ [c]) (d # ds))"

definition py_splitlines :: "ustr \<Rightarrow> ustr list" where
  "py_splitlines s = splitlines_acc [] s"

text \<open>\<open>s.split(sep)\<close> for a one-character separator: always at least one piece.\<close>

fun split_on_acc :: "nat \<Rightarrow> ustr \<Rightarrow> ustr \<Rightarrow> ustr list" where
  "split_on_acc sep cur [] = [cur]"
| "split_on_acc sep cur (c # cs) =
     (if c = sep then cur # split_on_acc sep [] cs else split_on_acc sep (cur @ [c]) cs)"

definition py_split_on :: "nat \<Rightarrow> ustr \<Rightarrow> ustr list" where
  "py_split_on sep s = split_on_acc sep [] s"

text \<open>\<open>list(dict.fromkeys(xs))\<close>: the first occurrence of each element, in order.\<close>

fun dict_fromkeys :: "'a list \<Rightarrow> 'a list \<Rightarrow> 'a list" where
  "dict_fromkeys acc [] = acc"
| "dict_fromkeys acc (x # xs) = (if x \<in> set acc then dict_fromkeys acc xs else dict_fromkeys (acc @ [x]) xs)"

text \<open>Confidences are exact rationals here; the program computes them in binary floating
  point. \<open>int(round(x))\<close>: Python rounds a tie to the even neighbour.\<close>

definition py_round :: "rat \<Rightarrow> int" where
  "py_round x =
     (let f = \<lfloor>x\<rfloor>; d = x - of_int f
      in if d < 1 / 2 then f else if 1 / 2 < d then f + 1 else if even f then f else f + 1)"

datatype py_error = IndexError | AttributeError | ZeroDivisionError

section \<open>Regular expressions\<close>

text \<open>
  The patterns of the program, as syntax trees, and a backtracking matcher with the
  priorities of Python's \<open>re\<close>: alternatives left to right, a greedy repetition longest
  first, a lazy one shortest first. Every repetition in the program's patterns is over a
  single-character item, or is an optional group, so these are the two forms modelled.
\<close>

datatype citem = Rg nat nat | Ch nat

datatype atom = ALit nat | ADot | ACls "citem list" | ASpace | ADigit

datatype re =
    Atom atom
  | Rep atom nat "nat option" bool
  | Eps
  | Seq re re
  | Alt re re
  | Opt re
  | Grp nat re
  | NotBehind atom
  | NotAhead atom
  | Bol
  | Eol

record flags =
  ignorecase :: bool
  dotall :: bool
  multiline :: bool

definition noflags :: flags where
  "noflags = \<lparr>ignorecase = False, dotall = False, multiline = False\<rparr>"

definition flag_i :: flags where
  "flag_i = \<lparr>ignorecase = True, dotall = False, multiline = False\<rparr>"

definition flag_s :: flags where
  "flag_s = \<lparr>ignorecase = False, dotall = True, multiline = False\<rparr>"

definition flag_si :: flags where
  "flag_si = \<lparr>ignorecase = True, dotall = True, multiline = False\<rparr>"

definition flag_m :: flags where
  "flag_m = \<lparr>ignorecase = False, dotall = False, multiline = True\<rparr>"

fun citem_ok :: "citem \<Rightarrow> nat \<Rightarrow> bool" where
  "citem_ok (Rg a b) c = (a \<le> c \<and> c \<le> b)"
| "citem_ok (Ch a) c = (c = a)"

definition cls_ok :: "citem list \<Rightarrow> nat \<Rightarrow> bool" where
  "cls_ok items c = list_ex (\<lambda>i. citem_ok i c) items"

fun atom_ok :: "flags \<Rightarrow> atom \<Rightarrow> nat \<Rightarrow> bool" where
  "atom_ok f (ALit a) c = (if ignorecase f then lower_ch c = lower_ch a else c = a)"
| "atom_ok f ADot c = (dotall f \<or> c \<noteq> 10)"
| "atom_ok f (ACls items) c =
     (cls_ok items c \<or> (ignorecase f \<and> (cls_ok items (lower_ch c) \<or> cls_ok items (upper_ch c))))"
| "atom_ok f ASpace c = py_isspace c"
| "atom_ok f ADigit c = is_digit_ch c"

text \<open>
  A matcher state: the text before the position (reversed, so its head is the previous
  character), the text from the position on, and the groups captured so far (the most
  recent first).
\<close>

type_synonym mstate = "ustr \<times> ustr \<times> (nat \<times> ustr) list"

fun dec_hi :: "nat option \<Rightarrow> nat option" where
  "dec_hi None = None"
| "dec_hi (Some h) = Some (h - 1)"

fun rep_greedy :: "(nat \<Rightarrow> bool) \<Rightarrow> nat \<Rightarrow> nat option \<Rightarrow> (ustr \<Rightarrow> ustr \<Rightarrow> 'a option) \<Rightarrow>
    ustr \<Rightarrow> ustr \<Rightarrow> 'a option" where
  "rep_greedy p lo hi k b [] = (if lo = 0 then k b [] else None)"
| "rep_greedy p lo hi k b (c # cs) =
     (if p c \<and> hi \<noteq> Some 0 then
        (case rep_greedy p (lo - 1) (dec_hi hi) k (c # b) cs of
           Some v \<Rightarrow> Some v
         | None \<Rightarrow> if lo = 0 then k b (c # cs) else None)
      else if lo = 0 then k b (c # cs) else None)"

fun rep_lazy :: "(nat \<Rightarrow> bool) \<Rightarrow> nat \<Rightarrow> nat option \<Rightarrow> (ustr \<Rightarrow> ustr \<Rightarrow> 'a option) \<Rightarrow>
    ustr \<Rightarrow> ustr \<Rightarrow> 'a option" where
  "rep_lazy p lo hi k b [] = (if lo = 0 then k b [] else None)"
| "rep_lazy p lo hi k b (c # cs) =
     (case (if lo = 0 then k b (c # cs) else None) of
        Some v \<Rightarrow> Some v
      | None \<Rightarrow> if p c \<and> hi \<noteq> Some 0 then rep_lazy p (lo - 1) (dec_hi hi) k (c # b) cs else None)"

fun re_run :: "flags \<Rightarrow> re \<Rightarrow> (mstate \<Rightarrow> 'a option) \<Rightarrow> mstate \<Rightarrow> 'a option" where
  "re_run f (Atom a) k (b, r, g) =
     (case r of [] \<Rightarrow> None | c # cs \<Rightarrow> if atom_ok f a c then k (c # b, cs, g) else None)"
| "re_run f (Rep a lo hi greedy) k (b, r, g) =
     (if greedy then rep_greedy (atom_ok f a) lo hi (\<lambda>b' r'. k (b', r', g)) b r
      else rep_lazy (atom_ok f a) lo hi (\<lambda>b' r'. k (b', r', g)) b r)"
| "re_run f Eps k s = k s"
| "re_run f (Seq x y) k s = re_run f x (re_run f y k) s"
| "re_run f (Alt x y) k s = (case re_run f x k s of Some v \<Rightarrow> Some v | None \<Rightarrow> re_run f y k s)"
| "re_run f (Opt x) k s = (case re_run f x k s of Some v \<Rightarrow> Some v | None \<Rightarrow> k s)"
| "re_run f (Grp i x) k (b, r, g) =
     re_run f x (\<lambda>(b', r', g'). k (b', r', (i, rev (take (length b' - length b) b')) # g')) (b, r, g)"
| "re_run f (NotBehind a) k (b, r, g) =
     (case b of [] \<Rightarrow> k (b, r, g) | c # _ \<Rightarrow> if atom_ok f a c then None else k (b, r, g))"
| "re_run f (NotAhead a) k (b, r, g) =
     (case r of [] \<Rightarrow> k (b, r, g) | c # _ \<Rightarrow> if atom_ok f a c then None else k (b, r, g))"
| "re_run f Bol k (b, r, g) =
     (case b of [] \<Rightarrow> k (b, r, g) | c # _ \<Rightarrow> if multiline f \<and> c = 10 then k (b, r, g) else None)"
| "re_run f Eol k (b, r, g) =
     (case r of [] \<Rightarrow> k (b, r, g)
      | c # cs \<Rightarrow> if c = 10 \<and> (cs = [] \<or> multiline f) then k (b, r, g) else None)"

definition lits :: "ustr \<Rightarrow> re" where
  "lits s = foldr (\<lambda>c r. Seq (Atom (ALit c)) r) s Eps"

definition seqs :: "re list \<Rightarrow> re" where
  "seqs rs = foldr Seq rs Eps"

text \<open>A match object: the text matched (group 0) and the groups that took part.\<close>

record rmatch =
  whole :: ustr
  groups :: "(nat \<times> ustr) list"

definition group :: "rmatch \<Rightarrow> nat \<Rightarrow> ustr option" where
  "group mt i = map_of (groups mt) i"

text \<open>A group used as a string: a group that did not take part is \<open>None\<close>, and a string
  method on it raises.\<close>

definition group_str :: "rmatch \<Rightarrow> nat \<Rightarrow> py_error + ustr" where
  "group_str mt i = (case group mt i of None \<Rightarrow> Inl AttributeError | Some s \<Rightarrow> Inr s)"

text \<open>A group as \<open>findall\<close> reports it: the empty string when it did not take part.\<close>

definition group_or_empty :: "rmatch \<Rightarrow> nat \<Rightarrow> ustr" where
  "group_or_empty mt i = (case group mt i of None \<Rightarrow> [] | Some s \<Rightarrow> s)"

definition match_at :: "flags \<Rightarrow> re \<Rightarrow> ustr \<Rightarrow> ustr \<Rightarrow> rmatch option" where
  "match_at f r b rest =
     (case re_run f r Some (b, rest, []) of
        None \<Rightarrow> None
      | Some (b', r', g) \<Rightarrow> Some \<lparr>whole = rev (take (length b' - length b) b'), groups = g\<rparr>)"

definition re_match :: "flags \<Rightarrow> re \<Rightarrow> ustr \<Rightarrow> rmatch option" where
  "re_match f r s = match_at f r [] s"

text \<open>\<open>re.search\<close>: the match at the leftmost position that has one.\<close>

fun search_from :: "flags \<Rightarrow> re \<Rightarrow> ustr \<Rightarrow> ustr \<Rightarrow> rmatch option" where
  "search_from f r b [] = match_at f r b []"
| "search_from f r b (c # cs) =
     (case match_at f r b (c # cs) of Some mt \<Rightarrow> Some mt | None \<Rightarrow> search_from f r (c # b) cs)"

definition re_search :: "flags \<Rightarrow> re \<Rightarrow> ustr \<Rightarrow> rmatch option" where
  "re_search f r s = search_from f r [] s"

text \<open>
  The scans of \<open>findall\<close>, \<open>sub\<close> and \<open>split\<close> go through the positions from left to
  right; \<open>skip\<close> counts the characters still inside the previous match. After an empty
  match the scan goes on at the next position. None of the program's patterns used with
  these three can match the empty string.
\<close>

fun findall_from :: "flags \<Rightarrow> re \<Rightarrow> ustr \<Rightarrow> ustr \<Rightarrow> nat \<Rightarrow> rmatch list" where
  "findall_from f r b [] skip =
     (if skip = 0 then (case match_at f r b [] of None \<Rightarrow> [] | Some mt \<Rightarrow> [mt]) else [])"
| "findall_from f r b (c # cs) skip =
     (if skip = 0 then
        (case match_at f r b (c # cs) of
           None \<Rightarrow> findall_from f r (c # b) cs 0
         | Some mt \<Rightarrow> mt # findall_from f r (c # b) cs (length (whole mt) - 1))
      else findall_from f r (c # b) cs (skip - 1))"

definition re_findall :: "flags \<Rightarrow> re \<Rightarrow> ustr \<Rightarrow> rmatch list" where
  "re_findall f r s = findall_from f r [] s 0"

fun sub_from :: "flags \<Rightarrow> re \<Rightarrow> ustr \<Rightarrow> ustr \<Rightarrow> ustr \<Rightarrow> nat \<Rightarrow> ustr" where
  "sub_from f r repl b [] skip =
     (if skip = 0 then (case match_at f r b [] of None \<Rightarrow> [] | Some mt \<Rightarrow> repl) else [])"
| "sub_from f r repl b (c # cs) skip =
     (if skip = 0 then
        (case match_at f r b (c # cs) of
           None \<Rightarrow> c # sub_from f r repl (c # b) cs 0
         | Some mt \<Rightarrow>
             if whole mt = [] then repl @ c # sub_from f r repl (c # b) cs 0
             else repl @ sub_from f r repl (c # b) cs (length (whole mt) - 1))
      else sub_from f r repl (c # b) cs (skip - 1))"

definition re_sub :: "flags \<Rightarrow> re \<Rightarrow> ustr \<Rightarrow> ustr \<Rightarrow> ustr" where
  "re_sub f r repl s = sub_from f r repl [] s 0"

text \<open>\<open>re.split\<close> for a pattern without groups: the pieces between the matches.\<close>

fun split_from :: "flags \<Rightarrow> re \<Rightarrow> ustr \<Rightarrow> ustr \<Rightarrow> ustr \<Rightarrow> nat \<Rightarrow> ustr list" where
  "split_from f r cur b [] skip = [cur]"
| "split_from f r cur b (c # cs) skip =
     (if skip = 0 then
        (case match_at f r b (c # cs) of
           None \<Rightarrow> split_from f r (cur @ [c]) (c # b) cs 0
         | Some mt \<Rightarrow>
             if whole mt = [] then split_from f r (cur @ [c]) (c # b) cs 0
             else cur # split_from f r [] (c # b) cs (length (whole mt) - 1))
      else split_from f r cur (c # b) cs (skip - 1))"

definition re_split :: "flags \<Rightarrow> re \<Rightarrow> ustr \<Rightarrow> ustr list" where
  "re_split f r s = split_from f r [] [] s 0"

section \<open>Text normalisation and language detection\<close>

definition upper_AZ :: citem where "upper_AZ = Rg (ch CHR ''A'') (ch CHR ''Z'')"
definition lower_az :: citem where "lower_az = Rg (ch CHR ''a'') (ch CHR ''z'')"
definition digit_09 :: citem where "digit_09 = Rg (ch CHR ''0'') (ch CHR ''9'')"

text \<open>\<open>[ \t]+\<close>, \<open>\r\<close>, \<open>\n{3,}\<close>\<close>

definition blanks_re :: re where
  "blanks_re = Rep (ACls [Ch 32, Ch 9]) 1 None True"

definition cr_re :: re where
  "cr_re = Atom (ALit 13)"

definition newlines3_re :: re where
  "newlines3_re = Rep (ALit 10) 3 None True"

definition clean_text :: "ustr \<Rightarrow> ustr" where
  "clean_text text =
     (let t1 = py_replace_char 0 (u '' '') text;
          t2 = re_sub noflags blanks_re (u '' '') t1;
          t3 = re_sub noflags cr_re [10] t2;
          t4 = re_sub noflags newlines3_re [10, 10] t3
      in py_strip t4)"

text \<open>The class from U+0C80 to U+0CFF, the Kannada block.\<close>

definition kannada_re :: re where
  "kannada_re = Atom (ACls [Rg 3200 3327])"

definition is_kannada :: "ustr \<Rightarrow> bool" where
  "is_kannada text \<longleftrightarrow> re_search noflags kannada_re text \<noteq> None"

section \<open>Name extraction\<close>

text \<open>The bullet and dash class of the source: \<open>|\<close>, U+2022, \<open>*\<close>, U+25BA, U+25C6,
  U+2212, U+2013, U+2014, \<open>-\<close>.\<close>

definition deco_re :: re where
  "deco_re = Atom (ACls [Ch 124, Ch 8226, Ch 42, Ch 9658, Ch 9670, Ch 8722, Ch 8211, Ch 8212, Ch 45])"

definition spaces2_re :: re where
  "spaces2_re = Rep ASpace 2 None True"

definition name_strip_chars :: ustr where
  "name_strip_chars = u '' .,|-'' @ [8211, 8212] @ u ''()[]{}''"

definition name_keywords :: "ustr list" where
  "name_keywords = map u [''email'', ''phone'', ''linkedin'', ''github'', ''cgpa'', ''education'',
     ''skills'', ''project'', ''experience'']"

text \<open>\<open>\s{4,}|\t+\<close>\<close>

definition columns_re :: re where
  "columns_re = Alt (Rep ASpace 4 None True) (Rep (ALit 9) 1 None True)"

definition name_word_cls :: atom where
  "name_word_cls = ACls [upper_AZ, lower_az, Ch (ch CHR 0x27), Ch (ch CHR ''.''), Ch (ch CHR ''-'')]"

text \<open>\<open>^[A-Z][A-Za-z'.-]+\s+[A-Z][A-Za-z'.-]+\<close>\<close>

definition proper_name_re :: re where
  "proper_name_re = seqs [Bol, Atom (ACls [upper_AZ]), Rep name_word_cls 1 None True,
     Rep ASpace 1 None True, Atom (ACls [upper_AZ]), Rep name_word_cls 1 None True]"

definition letters_cls :: atom where
  "letters_cls = ACls [lower_az, upper_AZ]"

text \<open>\<open>([a-zA-Z]+)[\._]?([a-zA-Z]+)?@\<close>\<close>

definition email_name_re :: re where
  "email_name_re = seqs [Grp 1 (Rep letters_cls 1 None True),
     Rep (ACls [Ch (ch CHR ''.''), Ch (ch CHR ''_'')]) 0 (Some 1) True,
     Opt (Grp 2 (Rep letters_cls 1 None True)), Atom (ALit (ch CHR ''@''))]"

text \<open>The loop over the candidates of a line; \<open>Some\<close> is the \<open>return\<close> inside it.\<close>

fun name_candidates :: "ustr list \<Rightarrow> ustr set \<Rightarrow> (ustr \<times> rat) option" where
  "name_candidates [] seen = None"
| "name_candidates (name # rest) seen =
     (let ws = py_split name
      in if length ws < 2 \<or> 5 < length ws then name_candidates rest seen
         else if py_lower name \<in> seen then name_candidates rest seen
         else if re_match noflags proper_name_re name \<noteq> None then Some (name, 99 / 100)
         else if list_all (\<lambda>w. case w of [] \<Rightarrow> False | c # _ \<Rightarrow> is_upper_ch c) ws
           then Some (name, 97 / 100)
         else name_candidates rest seen)"

definition clean_name_line :: "ustr \<Rightarrow> ustr" where
  "clean_name_line line =
     py_strip_chars name_strip_chars
       (re_sub noflags spaces2_re (u '' '') (re_sub noflags deco_re (u '' '') line))"

definition line_candidates :: "ustr \<Rightarrow> ustr list" where
  "line_candidates line =
     map py_strip (filter (\<lambda>c. py_strip c \<noteq> []) (re_split noflags columns_re line))"

fun name_lines :: "ustr list \<Rightarrow> ustr set \<Rightarrow> (ustr \<times> rat) option" where
  "name_lines [] seen = None"
| "name_lines (l # ls) seen =
     (let line = clean_name_line l
      in if line = [] \<or> length line < 5 then name_lines ls seen
         else if list_ex (\<lambda>kw. py_contains kw (py_lower line)) name_keywords then name_lines ls seen
         else (case name_candidates (line_candidates line) seen of
                 Some res \<Rightarrow> Some res
               | None \<Rightarrow> name_lines ls seen))"

definition first_lines :: "ustr \<Rightarrow> ustr list" where
  "first_lines text = filter (\<lambda>l. py_strip l \<noteq> []) (take 30 (py_splitlines text))"

definition name_from_email :: "rmatch \<Rightarrow> py_error + ustr" where
  "name_from_email mt =
     (case group_str mt 1 of
        Inl e \<Rightarrow> Inl e
      | Inr g1 \<Rightarrow>
          Inr (py_strip (py_title g1 @ u '' '' @
                 (case group mt 2 of
                    None \<Rightarrow> []
                  | Some g2 \<Rightarrow> if g2 \<noteq> [] then py_title g2 else []))))"

definition extract_name :: "ustr \<Rightarrow> py_error + (ustr \<times> rat)" where
  "extract_name text =
     (case name_lines (first_lines text) {} of
        Some res \<Rightarrow> Inr res
      | None \<Rightarrow>
          (case re_search noflags email_name_re text of
             Some mt \<Rightarrow> (case name_from_email mt of Inl e \<Rightarrow> Inl e | Inr n \<Rightarrow> Inr (n, 85 / 100))
           | None \<Rightarrow> Inr (u ''Unknown'', 1 / 10)))"

section \<open>Contact extraction\<close>

text \<open>\<open>(\+91[- ]?)?[6-9]\d{9}\<close>\<close>

definition phone_re :: re where
  "phone_re = seqs [Opt (Grp 1 (Seq (lits (u ''+91'')) (Rep (ACls [Ch (ch CHR ''-''), Ch 32]) 0 (Some 1) True))),
     Atom (ACls [Rg (ch CHR ''6'') (ch CHR ''9'')]), Rep ADigit 9 (Some 9) True]"

text \<open>\<open>[A-Za-z0-9._%+-]+@[A-Za-z0-9.-]+\.[A-Za-z]{2,}\<close>\<close>

definition email_re :: re where
  "email_re = seqs [
     Rep (ACls [upper_AZ, lower_az, digit_09, Ch (ch CHR ''.''), Ch (ch CHR ''_''), Ch (ch CHR ''%''),
                Ch (ch CHR ''+''), Ch (ch CHR ''-'')]) 1 None True,
     Atom (ALit (ch CHR ''@'')),
     Rep (ACls [upper_AZ, lower_az, digit_09, Ch (ch CHR ''.''), Ch (ch CHR ''-'')]) 1 None True,
     Atom (ALit (ch CHR ''.'')),
     Rep (ACls [upper_AZ, lower_az]) 2 None True]"

definition handle_cls :: atom where
  "handle_cls = ACls [upper_AZ, lower_az, digit_09, Ch (ch CHR ''-''), Ch (ch CHR ''_'')]"

text \<open>\<open>(linkedin\.com/in/[A-Za-z0-9\-_]+)\<close> and \<open>(github\.com/[A-Za-z0-9\-_]+)\<close>\<close>

definition linkedin_re :: re where
  "linkedin_re = Grp 1 (Seq (lits (u ''linkedin.com/in/'')) (Rep handle_cls 1 None True))"

definition github_re :: re where
  "github_re = Grp 1 (Seq (lits (u ''github.com/'')) (Rep handle_cls 1 None True))"

text \<open>A dictionary keeps its keys in insertion order; each key is inserted at most once
  here, so the dictionary is the list of its items.\<close>

type_synonym 'v pydict = "(ustr \<times> 'v) list"

text \<open>\<open>if m: out[key] = m.group(i); score += w\<close>, where \<open>get\<close> reads the group.\<close>

definition add_contact :: "ustr \<Rightarrow> rmatch option \<Rightarrow> (rmatch \<Rightarrow> ustr option) \<Rightarrow> rat \<Rightarrow>
    ustr option pydict \<times> rat \<Rightarrow> ustr option pydict \<times> rat" where
  "add_contact key m get w st =
     (case m of None \<Rightarrow> st | Some mt \<Rightarrow> (fst st @ [(key, get mt)], snd st + w))"

text \<open>The values of the dictionary are what \<open>group\<close> returns: a string, or \<open>None\<close> for a
  group that did not take part.\<close>

definition extract_contacts :: "ustr \<Rightarrow> ustr option pydict \<times> rat" where
  "extract_contacts text =
     (let phone = re_search noflags phone_re text;
          email = re_search noflags email_re text;
          linkedin = re_search flag_i linkedin_re text;
          github = re_search flag_i github_re text;
          st0 = ([], 0);
          st1 = add_contact (u ''phone'') phone (\<lambda>mt. Some (whole mt)) (35 / 100) st0;
          st2 = add_contact (u ''email'') email (\<lambda>mt. Some (whole mt)) (35 / 100) st1;
          st3 = add_contact (u ''linkedin'') linkedin (\<lambda>mt. group mt 1) (2 / 10) st2;
          st4 = add_contact (u ''github'') github (\<lambda>mt. group mt 1) (2 / 10) st3
      in (fst st4, min (snd st4) (99 / 100)))"

section \<open>Skills\<close>

definition alnum_lower :: atom where
  "alnum_lower = ACls [lower_az, digit_09]"

text \<open>\<open>(?<![a-z0-9])\<close> \<open>re.escape(skill.lower())\<close> \<open>(?![a-z0-9])\<close>\<close>

definition skill_re :: "ustr \<Rightarrow> re" where
  "skill_re skill = seqs [NotBehind alnum_lower, lits (py_lower skill), NotAhead alnum_lower]"

definition found_skills :: "ustr \<Rightarrow> ustr list \<Rightarrow> ustr set" where
  "found_skills text skills_list =
     set (map py_title
            (filter (\<lambda>skill. re_search noflags (skill_re skill) (py_lower text) \<noteq> None) skills_list))"

definition py_div :: "rat \<Rightarrow> nat \<Rightarrow> py_error + rat" where
  "py_div a b = (if b = 0 then Inl ZeroDivisionError else Inr (a / of_nat b))"

definition extract_skills :: "ustr \<Rightarrow> ustr list \<Rightarrow> py_error + (ustr list \<times> rat)" where
  "extract_skills text skills_list =
     (let found = found_skills text skills_list
      in if found = {} then Inr (sorted_list_of_set found, 1 / 10)
         else (case py_div (7 / 10 * of_nat (card found)) (max 1 (length skills_list div 5)) of
                 Inl e \<Rightarrow> Inl e
               | Inr q \<Rightarrow> Inr (sorted_list_of_set found, min (3 / 10 + q) (98 / 100))))"

section \<open>CGPA\<close>

text \<open>\<open>(\d+\.\d{1,2})\<close>\<close>

definition decimal_grp :: re where
  "decimal_grp = Grp 1 (seqs [Rep ADigit 1 None True, Atom (ALit (ch CHR ''.'')), Rep ADigit 1 (Some 2) True])"

definition cgpa_patterns :: "re list" where
  "cgpa_patterns =
     [seqs [lits (u ''CGPA''), Rep ADot 0 None False, decimal_grp],
      seqs [lits (u ''GPA''), Rep ADot 0 None False, decimal_grp],
      seqs [decimal_grp, Rep ASpace 0 None True, Atom (ALit (ch CHR ''/'')), Rep ASpace 0 None True,
            lits (u ''10'')],
      seqs [decimal_grp, Rep ASpace 0 None True, lits (u ''out''), Rep ASpace 0 None True,
            lits (u ''of''), Rep ASpace 0 None True, lits (u ''10'')]]"

fun cgpa_loop :: "re list \<Rightarrow> ustr \<Rightarrow> py_error + (ustr \<times> rat)" where
  "cgpa_loop [] text = Inr ([], 0)"
| "cgpa_loop (p # ps) text =
     (case re_search flag_i p text of
        Some mt \<Rightarrow> (case group_str mt 1 of Inl e \<Rightarrow> Inl e | Inr g \<Rightarrow> Inr (g, 99 / 100))
      | None \<Rightarrow> cgpa_loop ps text)"

definition extract_cgpa :: "ustr \<Rightarrow> py_error + (ustr \<times> rat)" where
  "extract_cgpa text = cgpa_loop cgpa_patterns text"

section \<open>Project extraction\<close>

text \<open>\<open>(?si)(projects?|project details)\s*[:\-]?\s*(.+?)(\n[A-Z][A-Za-z ]{3,}|$)\<close>\<close>

definition section_re :: re where
  "section_re = seqs [
     Grp 1 (Alt (Seq (lits (u ''project'')) (Rep (ALit (ch CHR ''s'')) 0 (Some 1) True))
                (lits (u ''project details''))),
     Rep ASpace 0 None True,
     Rep (ACls [Ch (ch CHR '':''), Ch (ch CHR ''-'')]) 0 (Some 1) True,
     Rep ASpace 0 None True,
     Grp 2 (Rep ADot 1 None False),
     Grp 3 (Alt (seqs [Atom (ALit 10), Atom (ACls [upper_AZ]),
                       Rep (ACls [upper_AZ, lower_az, Ch 32]) 3 None True])
                Eol)]"

text \<open>\<open>^[A-Za-z].{4,}\<close>\<close>

definition title_line_re :: re where
  "title_line_re = seqs [Bol, Atom (ACls [upper_AZ, lower_az]), Rep ADot 4 None True]"

definition bullet :: nat where
  "bullet = 8226"

definition title_excluded :: "ustr list" where
  "title_excluded = [[bullet], u ''-'', u ''*'', [bullet, 32], u ''1.'', u ''2.'']"

definition bullet_prefixes :: "ustr list" where
  "bullet_prefixes = [[bullet], u ''-'', u ''*'']"

text \<open>The grouping loop over the lines of the section block: \<open>combined\<close> and
  \<open>current_title\<close> are its state; \<open>combined[-1]\<close> raises on an empty list.\<close>

fun group_lines :: "ustr list \<Rightarrow> ustr list list \<Rightarrow> ustr \<Rightarrow> py_error + ustr list list" where
  "group_lines [] combined current_title = Inr combined"
| "group_lines (line # ls) combined current_title =
     (if py_isupper line then group_lines ls combined current_title
      else if re_match noflags title_line_re line \<noteq> None \<and> \<not> startswith_any line title_excluded
        then group_lines ls (combined @ [[line]]) line
      else if current_title \<noteq> [] \<and> (startswith_any line bullet_prefixes \<or> 3 < length (py_split line))
        then (case rev combined of
                [] \<Rightarrow> Inl IndexError
              | lst # front \<Rightarrow> group_lines ls (rev front @ [lst @ [line]]) current_title)
      else group_lines ls combined current_title)"

definition dash_sep :: ustr where
  "dash_sep = [32, 8211, 32]"

text \<open>One group to one project string; \<open>c[0]\<close> raises on an empty group.\<close>

definition render_group :: "ustr list \<Rightarrow> py_error + ustr" where
  "render_group c =
     (case c of
        [] \<Rightarrow> Inl IndexError
      | title # ds \<Rightarrow>
          (let desc = py_join (u ''; '') (map (py_lstrip_chars ([bullet] @ u ''-* '')) ds)
           in if desc \<noteq> [] then Inr (title @ dash_sep @ desc) else Inr title))"

fun render_groups :: "ustr list list \<Rightarrow> py_error + ustr list" where
  "render_groups [] = Inr []"
| "render_groups (c # cs) =
     (case render_group c of
        Inl e \<Rightarrow> Inl e
      | Inr p \<Rightarrow> (case render_groups cs of Inl e \<Rightarrow> Inl e | Inr ps \<Rightarrow> Inr (p # ps)))"

definition block_lines :: "ustr \<Rightarrow> ustr list" where
  "block_lines block =
     map py_strip (filter (\<lambda>l. 2 < length (py_strip l)) (py_split_on 10 block))"

definition section_projects :: "ustr \<Rightarrow> py_error + ustr list" where
  "section_projects text =
     (case re_search flag_si section_re text of
        None \<Rightarrow> Inr []
      | Some sec \<Rightarrow>
          (case group_str sec 2 of
             Inl e \<Rightarrow> Inl e
           | Inr block \<Rightarrow>
               (case group_lines (block_lines block) [] [] of
                  Inl e \<Rightarrow> Inl e
                | Inr combined \<Rightarrow> render_groups combined)))"

text \<open>\<open>(?m)^\s*(\d+\.|\(\d+\))\s*(.+)\<close>\<close>

definition numbered_re :: re where
  "numbered_re = seqs [Bol, Rep ASpace 0 None True,
     Grp 1 (Alt (Seq (Rep ADigit 1 None True) (Atom (ALit (ch CHR ''.''))))
                (seqs [Atom (ALit (ch CHR ''('')), Rep ADigit 1 None True, Atom (ALit (ch CHR '')''))])),
     Rep ASpace 0 None True,
     Grp 2 (Rep ADot 1 None True)]"

text \<open>\<open>re.escape(title)\<close> \<open>\s*\n(.+?)(\n\d+\.|\n[A-Z ]{3,}|$)\<close>\<close>

definition desc_re :: "ustr \<Rightarrow> re" where
  "desc_re title = seqs [lits title, Rep ASpace 0 None True, Atom (ALit 10),
     Grp 1 (Rep ADot 1 None False),
     Grp 2 (Alt (seqs [Atom (ALit 10), Rep ADigit 1 None True, Atom (ALit (ch CHR ''.''))])
             (Alt (Seq (Atom (ALit 10)) (Rep (ACls [upper_AZ, Ch 32]) 3 None True))
                  Eol))]"

text \<open>\<open>\n{1,2}\<close>\<close>

definition newlines12_re :: re where
  "newlines12_re = Rep (ALit 10) 1 (Some 2) True"

definition numbered_project :: "ustr \<Rightarrow> ustr \<Rightarrow> py_error + ustr" where
  "numbered_project text title0 =
     (let title = py_strip title0
      in case re_search flag_s (desc_re title) text of
           Some desc \<Rightarrow>
             (case group_str desc 1 of
                Inl e \<Rightarrow> Inl e
              | Inr g \<Rightarrow> Inr (title @ dash_sep @ re_sub noflags newlines12_re (u '' '') (py_strip g)))
         | None \<Rightarrow> Inr title)"

fun numbered_loop :: "ustr \<Rightarrow> ustr list \<Rightarrow> py_error + ustr list" where
  "numbered_loop text [] = Inr []"
| "numbered_loop text (t # ts) =
     (case numbered_project text t of
        Inl e \<Rightarrow> Inl e
      | Inr p \<Rightarrow> (case numbered_loop text ts of Inl e \<Rightarrow> Inl e | Inr ps \<Rightarrow> Inr (p # ps)))"

definition numbered_projects :: "ustr \<Rightarrow> py_error + ustr list" where
  "numbered_projects text =
     numbered_loop text (map (\<lambda>mt. group_or_empty mt 2) (re_findall flag_m numbered_re text))"

text \<open>\<open>(?m)^\s*[-*]\s*(.+)\<close>, the class with the bullet U+2022\<close>

definition bullets_re :: re where
  "bullets_re = seqs [Bol, Rep ASpace 0 None True,
     Atom (ACls [Ch (ch CHR ''-''), Ch bullet, Ch (ch CHR ''*'')]),
     Rep ASpace 0 None True, Grp 1 (Rep ADot 1 None True)]"

definition bullet_projects :: "ustr \<Rightarrow> ustr list" where
  "bullet_projects text =
     map py_strip (filter (\<lambda>b. 5 < length b)
       (map (\<lambda>mt. group_or_empty mt 1) (re_findall flag_m bullets_re text)))"

text \<open>The last loop: trim, drop the short and the repeated.\<close>

fun final_loop :: "ustr list \<Rightarrow> ustr list \<Rightarrow> ustr list" where
  "final_loop [] final = final"
| "final_loop (p0 # ps) final =
     (let p = py_strip_chars (u '' .-_'') p0
      in if 5 < length p \<and> p \<notin> set final then final_loop ps (final @ [p]) else final_loop ps final)"

definition extract_projects :: "ustr \<Rightarrow> py_error + (ustr list \<times> rat)" where
  "extract_projects text =
     (case section_projects text of
        Inl e \<Rightarrow> Inl e
      | Inr ps1 \<Rightarrow>
          (case numbered_projects text of
             Inl e \<Rightarrow> Inl e
           | Inr ps2 \<Rightarrow>
               (let final = final_loop (ps1 @ ps2 @ bullet_projects text) []
                in Inr (take 10 final, if final \<noteq> [] then 9 / 10 else 0))))"

section \<open>Experience, confidence and the assembled record\<close>

definition extract_experience :: "ustr \<Rightarrow> (ustr pydict) list \<times> rat" where
  "extract_experience text = ([], 0)"

definition section_confidence_map :: "rat pydict \<Rightarrow> int pydict" where
  "section_confidence_map d = map (\<lambda>(k, v). (k, py_round (v * 100))) d"

record extraction =
  file_name :: ustr
  name :: ustr
  contacts :: "ustr option pydict"
  skills :: "ustr list"
  cgpa :: ustr
  projects :: "ustr list"
  projects_text :: ustr
  experience :: "(ustr pydict) list"
  confidence :: "int pydict"
  language :: ustr
  raw_text :: ustr

text \<open>
  \<open>parse_file\<close> from the text that \<open>load_text\<close> returned and the vocabulary that
  \<open>load_skills_dict\<close> returned; reading the two files is outside the model.
\<close>

definition parse_text :: "ustr \<Rightarrow> ustr \<Rightarrow> ustr list \<Rightarrow> py_error + extraction" where
  "parse_text fname raw skills_list =
     (let text = clean_text raw
      in case extract_name text of
           Inl e \<Rightarrow> Inl e
         | Inr (name0, c_name) \<Rightarrow>
       (let (cont, c_contact) = extract_contacts text
        in case extract_skills text skills_list of
             Inl e \<Rightarrow> Inl e
           | Inr (skills0, c_skills) \<Rightarrow>
         (case extract_cgpa text of
            Inl e \<Rightarrow> Inl e
          | Inr (cg, c_cgpa) \<Rightarrow>
         (case extract_projects text of
            Inl e \<Rightarrow> Inl e
          | Inr (projects0, c_proj) \<Rightarrow>
         (let projs = map remove_duplicate_words projects0;
              (exper, c_exp) = extract_experience text;
              conf = section_confidence_map
                [(u ''name'', c_name), (u ''contact'', c_contact), (u ''skills'', c_skills),
                 (u ''education'', 1 / 2), (u ''cgpa'', c_cgpa), (u ''projects'', c_proj),
                 (u ''experience'', c_exp)]
          in Inr \<lparr>file_name = fname,
                  name = remove_duplicate_words name0,
                  contacts = cont,
                  skills = dict_fromkeys [] skills0,
                  cgpa = cg,
                  projects = projs,
                  projects_text = py_join (u '' '') projs,
                  experience = exper,
                  confidence = conf,
                  language = (if is_kannada text then u ''Kannada'' else u ''English''),
                  raw_text = text\<rparr>)))))"

section \<open>Notions used in the statements and proofs\<close>

text \<open>The bounds of the specification: a confidence lies in [0, 0.99], a percentage in
  [0, 99].\<close>

definition conf_ok :: "rat \<Rightarrow> bool" where
  "conf_ok c \<longleftrightarrow> 0 \<le> c \<and> c \<le> 99 / 100"

definition pct_ok :: "int \<Rightarrow> bool" where
  "pct_ok n \<longleftrightarrow> 0 \<le> n \<and> n \<le> 99"

text \<open>A pattern binds group \<open>i\<close> when every match of it sets that group; \<open>gkeys\<close> are
  the groups set in a matcher state.\<close>

fun binds :: "nat \<Rightarrow> re \<Rightarrow> bool" where
  "binds i (Grp j x) = (i = j \<or> binds i x)"
| "binds i (Seq x y) = (binds i x \<or> binds i y)"
| "binds i (Alt x y) = (binds i x \<and> binds i y)"
| "binds i _ = False"

definition gkeys :: "(nat \<times> ustr) list \<Rightarrow> nat set" where
  "gkeys g = fst ` set g"

text \<open>
  For the normaliser: a substitution for a pattern that is one greedy run of a character
  class, the two stages of that kind, the length of the run of newlines at the front of a
  text, and the texts the normaliser leaves as they are.
\<close>

definition sub_run :: "atom \<Rightarrow> nat \<Rightarrow> ustr \<Rightarrow> ustr \<Rightarrow> ustr" where
  "sub_run a lo repl xs = sub_from noflags (Rep a lo None True) repl [] xs 0"

definition is_blank :: "nat \<Rightarrow> bool" where
  "is_blank c \<longleftrightarrow> c = 32 \<or> c = 9"

definition collapse_blanks :: "ustr \<Rightarrow> ustr" where
  "collapse_blanks x = sub_run (ACls [Ch 32, Ch 9]) 1 [32] x"

definition squeeze_newlines :: "ustr \<Rightarrow> ustr" where
  "squeeze_newlines x = sub_run (ALit 10) 3 [10, 10] x"

definition nl_run :: "ustr \<Rightarrow> nat" where
  "nl_run x = length (takeWhile (\<lambda>c. c = 10) x)"

definition normal_text :: "ustr \<Rightarrow> bool" where
  "normal_text y \<longleftrightarrow> 0 \<notin> set y \<and> 9 \<notin> set y \<and> 13 \<notin> set y \<and> \<not> sublist [32, 32] y \<and>
     \<not> sublist [10, 10, 10] y"









section \<open>Properties of duplicate word removal\<close>














section \<open>The matcher: what a successful run guarantees\<close>

lemma rep_greedy_sound:
  "rep_greedy p lo hi k b xs = Some v \<Longrightarrow>
   \<exists>n. n \<le> length xs \<and> lo \<le> n \<and> list_all p (take n xs) \<and> (\<forall>h. hi = Some h \<longrightarrow> n \<le> h) \<and>
       k (rev (take n xs) @ b) (drop n xs) = Some v"
proof (induction xs arbitrary: lo hi b)
  case Nil
  then show ?case by (auto split: if_splits)
next
  case (Cons c cs)
  show ?case
  proof (cases "p c \<and> hi \<noteq> Some 0")
    case False
    with Cons.prems have "lo = 0" "k b (c # cs) = Some v"
      by (auto split: if_splits)
    then show ?thesis by (intro exI[of _ 0]) simp
  next
    case True
    show ?thesis
    proof (cases "rep_greedy p (lo - 1) (dec_hi hi) k (c # b) cs")
      case None
      with True Cons.prems have "lo = 0" "k b (c # cs) = Some v"
        by (auto split: if_splits)
      then show ?thesis by (intro exI[of _ 0]) simp
    next
      case (Some w)
      with True Cons.prems have "rep_greedy p (lo - 1) (dec_hi hi) k (c # b) cs = Some v"
        by simp
      from Cons.IH[OF this] obtain n where n: "n \<le> length cs" "lo - 1 \<le> n" "list_all p (take n cs)"
        "\<forall>h. dec_hi hi = Some h \<longrightarrow> n \<le> h" "k (rev (take n cs) @ c # b) (drop n cs) = Some v"
        by blast
      have "\<forall>h. hi = Some h \<longrightarrow> Suc n \<le> h"
        using n(4) True by (cases hi) auto
      with n True show ?thesis by (intro exI[of _ "Suc n"]) auto
    qed
  qed
qed

lemma rep_lazy_sound:
  "rep_lazy p lo hi k b xs = Some v \<Longrightarrow>
   \<exists>n. n \<le> length xs \<and> lo \<le> n \<and> list_all p (take n xs) \<and> (\<forall>h. hi = Some h \<longrightarrow> n \<le> h) \<and>
       k (rev (take n xs) @ b) (drop n xs) = Some v"
proof (induction xs arbitrary: lo hi b)
  case Nil
  then show ?case by (auto split: if_splits)
next
  case (Cons c cs)
  show ?case
  proof (cases "lo = 0 \<and> k b (c # cs) \<noteq> None")
    case True
    with Cons.prems have "k b (c # cs) = Some v" by auto
    with True show ?thesis by (intro exI[of _ 0]) simp
  next
    case False
    with Cons.prems have pc: "p c" "hi \<noteq> Some 0"
      and r: "rep_lazy p (lo - 1) (dec_hi hi) k (c # b) cs = Some v"
      by (auto split: if_splits option.splits)
    from Cons.IH[OF r] obtain n where n: "n \<le> length cs" "lo - 1 \<le> n" "list_all p (take n cs)"
      "\<forall>h. dec_hi hi = Some h \<longrightarrow> n \<le> h" "k (rev (take n cs) @ c # b) (drop n cs) = Some v"
      by blast
    have "\<forall>h. hi = Some h \<longrightarrow> Suc n \<le> h"
      using n(4) pc by (cases hi) auto
    with n pc show ?thesis by (intro exI[of _ "Suc n"]) auto
  qed
qed

lemma re_run_sound:
  "re_run f r k (b, xs, g) = Some v \<Longrightarrow>
   \<exists>b' xs' g'. k (b', xs', g') = Some v \<and> rev b' @ xs' = rev b @ xs \<and> length b \<le> length b' \<and>
      gkeys g \<subseteq> gkeys g' \<and> (binds i r \<longrightarrow> i \<in> gkeys g')"
proof (induction r arbitrary: k b xs g v)
  case (Atom a)
  then obtain c cs where "xs = c # cs" "k (c # b, cs, g) = Some v"
    by (auto split: list.splits if_splits)
  then show ?case
    by (intro exI[of _ "c # b"] exI[of _ cs] exI[of _ g]) simp
next
  case (Rep a lo hi greedy)
  then obtain n where "n \<le> length xs" "k (rev (take n xs) @ b, drop n xs, g) = Some v"
    using rep_greedy_sound[of "atom_ok f a" lo hi "\<lambda>b' r'. k (b', r', g)" b xs v]
      rep_lazy_sound[of "atom_ok f a" lo hi "\<lambda>b' r'. k (b', r', g)" b xs v]
    by (auto split: if_splits)
  then show ?case
    by (intro exI[of _ "rev (take n xs) @ b"] exI[of _ "drop n xs"] exI[of _ g]) simp
next
  case Eps
  then show ?case by auto
next
  case (Seq x y)
  from Seq.prems have "re_run f x (re_run f y k) (b, xs, g) = Some v" by simp
  from Seq.IH(1)[OF this] obtain b1 xs1 g1 where 1: "re_run f y k (b1, xs1, g1) = Some v"
    "rev b1 @ xs1 = rev b @ xs" "length b \<le> length b1" "gkeys g \<subseteq> gkeys g1" "binds i x \<longrightarrow> i \<in> gkeys g1"
    by blast
  from Seq.IH(2)[OF 1(1)] obtain b2 xs2 g2 where 2: "k (b2, xs2, g2) = Some v"
    "rev b2 @ xs2 = rev b1 @ xs1" "length b1 \<le> length b2" "gkeys g1 \<subseteq> gkeys g2" "binds i y \<longrightarrow> i \<in> gkeys g2"
    by blast
  from 1 2 show ?case
    by (intro exI[of _ b2] exI[of _ xs2] exI[of _ g2]) auto
next
  case (Alt x y)
  show ?case
  proof (cases "re_run f x k (b, xs, g)")
    case None
    with Alt.prems have "re_run f y k (b, xs, g) = Some v" by simp
    from Alt.IH(2)[OF this] show ?thesis
      by (elim exE conjE) (rule exI, rule exI, rule exI, auto)
  next
    case (Some w)
    with Alt.prems have "re_run f x k (b, xs, g) = Some v" by simp
    from Alt.IH(1)[OF this] show ?thesis
      by (elim exE conjE) (rule exI, rule exI, rule exI, auto)
  qed
next
  case (Opt x)
  show ?case
  proof (cases "re_run f x k (b, xs, g)")
    case None
    with Opt.prems have "k (b, xs, g) = Some v" by simp
    then show ?thesis by (intro exI[of _ b] exI[of _ xs] exI[of _ g]) simp
  next
    case (Some w)
    with Opt.prems have "re_run f x k (b, xs, g) = Some v" by simp
    from Opt.IH[OF this] show ?thesis
      by (elim exE conjE) (rule exI, rule exI, rule exI, auto)
  qed
next
  case (Grp j x)
  let ?k = "\<lambda>(b', r', g'). k (b', r', (j, rev (take (length b' - length b) b')) # g')"
  from Grp.prems have "re_run f x ?k (b, xs, g) = Some v" by simp
  from Grp.IH[OF this] obtain b1 xs1 g1 where 1: "?k (b1, xs1, g1) = Some v"
    "rev b1 @ xs1 = rev b @ xs" "length b \<le> length b1" "gkeys g \<subseteq> gkeys g1" "binds i x \<longrightarrow> i \<in> gkeys g1"
    by blast
  then show ?case
    by (intro exI[of _ b1] exI[of _ xs1] exI[of _ "(j, rev (take (length b1 - length b) b1)) # g1"])
       (auto simp add: gkeys_def)
next
  case (NotBehind a)
  then have "k (b, xs, g) = Some v" by (auto split: list.splits if_splits)
  then show ?case by (intro exI[of _ b] exI[of _ xs] exI[of _ g]) simp
next
  case (NotAhead a)
  then have "k (b, xs, g) = Some v" by (auto split: list.splits if_splits)
  then show ?case by (intro exI[of _ b] exI[of _ xs] exI[of _ g]) simp
next
  case Bol
  then have "k (b, xs, g) = Some v" by (auto split: list.splits if_splits)
  then show ?case by (intro exI[of _ b] exI[of _ xs] exI[of _ g]) simp
next
  case Eol
  then have "k (b, xs, g) = Some v" by (auto split: list.splits if_splits)
  then show ?case by (intro exI[of _ b] exI[of _ xs] exI[of _ g]) simp
qed

lemma match_at_binds:
  assumes "match_at f r b xs = Some mt" "binds i r"
  shows "\<exists>s. group mt i = Some s"
proof -
  from assms(1) obtain b' xs' g' where r: "re_run f r Some (b, xs, []) = Some (b', xs', g')"
    and mt: "mt = \<lparr>whole = rev (take (length b' - length b) b'), groups = g'\<rparr>"
    by (auto simp add: match_at_def split: option.splits)
  from re_run_sound[OF r, of i] assms(2) have "i \<in> gkeys g'" by auto
  then have "map_of g' i \<noteq> None"
    unfolding gkeys_def by (simp add: map_of_eq_None_iff)
  then show ?thesis
    using mt by (auto simp add: group_def)
qed

lemma search_from_binds:
  "search_from f r b xs = Some mt \<Longrightarrow> binds i r \<Longrightarrow> \<exists>s. group mt i = Some s"
  by (induction xs arbitrary: b) (auto split: option.splits dest: match_at_binds)

lemma re_search_binds:
  "re_search f r s = Some mt \<Longrightarrow> binds i r \<Longrightarrow> \<exists>v. group_str mt i = Inr v"
  unfolding re_search_def group_str_def by (auto dest!: search_from_binds)

section \<open>Every extractor returns, within the confidence bounds\<close>

lemma conf_ok_values:
  "conf_ok (99 / 100)" "conf_ok (97 / 100)" "conf_ok (85 / 100)" "conf_ok (1 / 10)" "conf_ok (9 / 10)"
  "conf_ok 0"
  by (simp_all add: conf_ok_def)

lemma name_candidates_conf:
  "name_candidates cs seen = Some (n, c) \<Longrightarrow> conf_ok c"
  by (induction cs) (auto simp add: Let_def conf_ok_def split: if_splits)

lemma name_lines_conf:
  "name_lines ls seen = Some (n, c) \<Longrightarrow> conf_ok c"
  by (induction ls) (auto simp add: Let_def split: if_splits option.splits dest: name_candidates_conf)

lemma binds_email_name: "binds 1 email_name_re"
  by (simp add: email_name_re_def seqs_def)

lemma extract_name_total:
  "\<exists>n c. extract_name text = Inr (n, c) \<and> conf_ok c"
proof (cases "name_lines (first_lines text) {}")
  case (Some res)
  then show ?thesis
    using name_lines_conf[of "first_lines text" "{}" "fst res" "snd res"]
    by (cases res) (auto simp add: extract_name_def conf_ok_values)
next
  case None
  show ?thesis
  proof (cases "re_search noflags email_name_re text")
    case None
    with \<open>name_lines (first_lines text) {} = None\<close>
    have "extract_name text = Inr (u ''Unknown'', 1 / 10)"
      by (simp add: extract_name_def)
    then show ?thesis using conf_ok_values(4) by blast
  next
    case (Some mt)
    from re_search_binds[OF Some binds_email_name] obtain g1 where "group_str mt 1 = Inr g1" ..
    with Some \<open>name_lines (first_lines text) {} = None\<close>
    have "\<exists>n. extract_name text = Inr (n, 85 / 100)"
      by (simp add: extract_name_def name_from_email_def)
    then show ?thesis using conf_ok_values(3) by blast
  qed
qed

lemma extract_contacts_conf:
  "conf_ok (snd (extract_contacts text))"
proof -
  have step: "0 \<le> snd (add_contact key m get w st)" if "0 \<le> snd st" "0 \<le> w" for key m get w st
    using that by (cases m) (simp_all add: add_contact_def)
  show ?thesis
    unfolding extract_contacts_def Let_def conf_ok_def snd_conv
    by (intro conjI min.boundedI step) simp_all
qed

lemma extract_skills_total:
  "\<exists>s c. extract_skills text vocab = Inr (s, c) \<and> conf_ok c"
proof -
  let ?d = "max 1 (length vocab div 5)"
  let ?q = "7 / 10 * rat_of_nat (card (found_skills text vocab)) / rat_of_nat ?d"
  have "0 \<le> ?q" by simp
  then have "0 \<le> min (3 / 10 + ?q) (98 / 100)"
    by (intro min.boundedI) simp_all
  moreover have "min (3 / 10 + ?q) (98 / 100) \<le> 99 / 100"
    by (rule min.coboundedI2) simp
  ultimately have "conf_ok (min (3 / 10 + ?q) (98 / 100))"
    unfolding conf_ok_def by (rule conjI)
  then have ok: "conf_ok (min (3 / 10 + ?q) (98 / 100))" .
  have d: "?d \<noteq> 0" by simp
  show ?thesis
  proof (cases "found_skills text vocab = {}")
    case True
    then have "extract_skills text vocab = Inr (sorted_list_of_set (found_skills text vocab), 1 / 10)"
      by (simp add: extract_skills_def Let_def)
    then show ?thesis using conf_ok_values(4) by blast
  next
    case False
    then have "extract_skills text vocab =
        Inr (sorted_list_of_set (found_skills text vocab), min (3 / 10 + ?q) (98 / 100))"
      unfolding extract_skills_def Let_def py_div_def using d by (simp only: if_False sum.case)
    then show ?thesis using ok by blast
  qed
qed

lemma cgpa_loop_total:
  "list_all (binds 1) ps \<Longrightarrow> \<exists>v c. cgpa_loop ps text = Inr (v, c) \<and> conf_ok c"
proof (induction ps)
  case Nil
  then show ?case by (simp add: conf_ok_values)
next
  case (Cons p ps)
  show ?case
  proof (cases "re_search flag_i p text")
    case None
    with Cons show ?thesis by simp
  next
    case (Some mt)
    from Cons.prems have "binds 1 p" by simp
    from re_search_binds[OF Some this] obtain g where "group_str mt 1 = Inr g" ..
    with Some have "cgpa_loop (p # ps) text = Inr (g, 99 / 100)" by simp
    then show ?thesis using conf_ok_values(1) by blast
  qed
qed

lemma cgpa_patterns_bind: "list_all (binds 1) cgpa_patterns"
  by (simp add: cgpa_patterns_def seqs_def decimal_grp_def)

lemma extract_cgpa_total:
  "\<exists>v c. extract_cgpa text = Inr (v, c) \<and> conf_ok c"
  unfolding extract_cgpa_def by (rule cgpa_loop_total) (rule cgpa_patterns_bind)

lemma group_lines_total:
  "list_all (\<lambda>c. c \<noteq> []) combined \<Longrightarrow> (cur \<noteq> [] \<longrightarrow> combined \<noteq> []) \<Longrightarrow>
   \<exists>res. group_lines ls combined cur = Inr res \<and> list_all (\<lambda>c. c \<noteq> []) res"
proof (induction ls arbitrary: combined cur)
  case Nil
  then show ?case by simp
next
  case (Cons line ls)
  let ?title = "re_match noflags title_line_re line \<noteq> None \<and> \<not> startswith_any line title_excluded"
  let ?cont = "cur \<noteq> [] \<and> (startswith_any line bullet_prefixes \<or> 3 < length (py_split line))"
  consider (skip) "py_isupper line \<or> (\<not> ?title \<and> \<not> ?cont)"
    | (title) "\<not> py_isupper line" "?title"
    | (cont) "\<not> py_isupper line" "\<not> ?title" "?cont"
    by blast
  then show ?case
  proof cases
    case skip
    then have "group_lines (line # ls) combined cur = group_lines ls combined cur"
      by auto
    with Cons.IH[OF Cons.prems] show ?thesis by simp
  next
    case title
    then have e: "group_lines (line # ls) combined cur = group_lines ls (combined @ [[line]]) line"
      by simp
    have "list_all (\<lambda>c. c \<noteq> []) (combined @ [[line]])" "line \<noteq> [] \<longrightarrow> combined @ [[line]] \<noteq> []"
      using Cons.prems by simp_all
    from Cons.IH[OF this] e show ?thesis by simp
  next
    case cont
    with Cons.prems obtain lst front where rc: "rev combined = lst # front"
      by (cases "rev combined") auto
    with cont have e: "group_lines (line # ls) combined cur =
        group_lines ls (rev front @ [lst @ [line]]) cur"
      by auto
    have "combined = rev front @ [lst]"
      using rc by (metis rev_rev_ident rev.simps(2))
    then have "list_all (\<lambda>c. c \<noteq> []) (rev front @ [lst @ [line]])"
        "cur \<noteq> [] \<longrightarrow> rev front @ [lst @ [line]] \<noteq> []"
      using Cons.prems by simp_all
    from Cons.IH[OF this] e show ?thesis by simp
  qed
qed

lemma render_groups_total:
  "list_all (\<lambda>c. c \<noteq> []) cs \<Longrightarrow> \<exists>ps. render_groups cs = Inr ps"
proof (induction cs)
  case Nil
  then show ?case by simp
next
  case (Cons c cs)
  then obtain ps where "render_groups cs = Inr ps" by auto
  moreover have "\<exists>p. render_group c = Inr p"
    using Cons.prems by (cases c) (simp_all add: render_group_def Let_def)
  ultimately show ?case by auto
qed

lemma binds_section: "binds 2 section_re"
  by (simp add: section_re_def seqs_def)

lemma section_projects_total: "\<exists>ps. section_projects text = Inr ps"
proof (cases "re_search flag_si section_re text")
  case None
  then show ?thesis by (simp add: section_projects_def)
next
  case (Some sec)
  from re_search_binds[OF Some binds_section] obtain block where b: "group_str sec 2 = Inr block" ..
  obtain combined where c: "group_lines (block_lines block) [] [] = Inr combined"
    "list_all (\<lambda>c. c \<noteq> []) combined"
    using group_lines_total[of "[]" "[]" "block_lines block"] by auto
  from render_groups_total[OF c(2)] obtain ps where "render_groups combined = Inr ps" ..
  with Some b c show ?thesis by (simp add: section_projects_def)
qed

lemma binds_desc: "binds 1 (desc_re title)"
  by (simp add: desc_re_def seqs_def)

lemma numbered_project_total: "\<exists>p. numbered_project text t = Inr p"
proof (cases "re_search flag_s (desc_re (py_strip t)) text")
  case None
  then show ?thesis by (simp add: numbered_project_def Let_def)
next
  case (Some d)
  from re_search_binds[OF Some binds_desc] obtain g where "group_str d 1 = Inr g" ..
  with Some show ?thesis by (simp add: numbered_project_def Let_def)
qed

lemma numbered_loop_total: "\<exists>ps. numbered_loop text ts = Inr ps"
proof (induction ts)
  case Nil
  then show ?case by simp
next
  case (Cons t ts)
  then obtain ps where "numbered_loop text ts = Inr ps" ..
  moreover obtain p where "numbered_project text t = Inr p"
    using numbered_project_total by blast
  ultimately show ?case by simp
qed

lemma strip_pred_idem:
  "rev (dropWhile P (rev (dropWhile P (rev (dropWhile P (rev (dropWhile P s))))))) =
   rev (dropWhile P (rev (dropWhile P s)))"
proof -
  define t where "t = dropWhile P s"
  define r where "r = rev (dropWhile P (rev t))"
  have split: "r @ rev (takeWhile P (rev t)) = t"
    unfolding r_def by (simp only: rev_append[symmetric] takeWhile_dropWhile_id rev_rev_ident)
  have front: "dropWhile P r = r"
  proof (cases r)
    case Nil
    then show ?thesis by simp
  next
    case (Cons x xs)
    with split have tx: "t = x # (xs @ rev (takeWhile P (rev t)))" by simp
    then have "t \<noteq> []" "hd t = x" by (metis list.distinct(1), metis list.sel(1))
    moreover have "t \<noteq> [] \<Longrightarrow> \<not> P (hd t)"
      unfolding t_def by (rule hd_dropWhile)
    ultimately have "\<not> P x" by simp
    with Cons show ?thesis by simp
  qed
  have "rev (dropWhile P (rev (dropWhile P r))) = r"
    unfolding front unfolding r_def by (simp only: rev_rev_ident dropWhile_idem)
  then show ?thesis
    unfolding r_def t_def .
qed

lemma strip_chars_idem:
  "py_strip_chars cs (py_strip_chars cs s) = py_strip_chars cs s"
  unfolding py_strip_chars_def by (rule strip_pred_idem)

lemma final_loop_inv:
  "distinct final \<Longrightarrow> list_all (\<lambda>p. py_strip_chars (u '' .-_'') p = p \<and> 5 < length p) final \<Longrightarrow>
   distinct (final_loop ps final) \<and>
   list_all (\<lambda>p. py_strip_chars (u '' .-_'') p = p \<and> 5 < length p) (final_loop ps final)"
proof (induction ps arbitrary: final)
  case Nil
  then show ?case by simp
next
  case (Cons p0 ps)
  let ?p = "py_strip_chars (u '' .-_'') p0"
  show ?case
  proof (cases "5 < length ?p \<and> ?p \<notin> set final")
    case True
    have "distinct (final @ [?p])"
      "list_all (\<lambda>p. py_strip_chars (u '' .-_'') p = p \<and> 5 < length p) (final @ [?p])"
      using Cons.prems True by (simp_all add: strip_chars_idem)
    from Cons.IH[OF this] True show ?thesis by (simp add: Let_def)
  next
    case False
    with Cons.IH[OF Cons.prems] show ?thesis by (auto simp add: Let_def)
  qed
qed

lemma extract_projects_total:
  "\<exists>ps c. extract_projects text = Inr (ps, c) \<and> length ps \<le> 10 \<and> distinct ps \<and>
      map (py_strip_chars (u '' .-_'')) ps = ps \<and> conf_ok c"
proof -
  obtain ps1 where 1: "section_projects text = Inr ps1"
    using section_projects_total by blast
  obtain ps2 where 2: "numbered_projects text = Inr ps2"
    unfolding numbered_projects_def using numbered_loop_total by blast
  let ?final = "final_loop (ps1 @ ps2 @ bullet_projects text) []"
  have inv: "distinct ?final"
    "list_all (\<lambda>p. py_strip_chars (u '' .-_'') p = p \<and> 5 < length p) ?final"
    using final_loop_inv[of "[]" "ps1 @ ps2 @ bullet_projects text"] by simp_all
  have "distinct (take 10 ?final)"
    using inv(1) by (rule distinct_take)
  moreover have "map (py_strip_chars (u '' .-_'')) (take 10 ?final) = take 10 ?final"
    using inv(2) by (intro map_idI) (auto simp add: list_all_iff dest: in_set_takeD)
  ultimately show ?thesis
    using 1 2 by (simp add: extract_projects_def Let_def conf_ok_values)
qed

lemma py_round_pct:
  assumes "conf_ok c"
  shows "pct_ok (py_round (c * 100))"
proof -
  define x where "x = c * 100"
  define f where "f = \<lfloor>x\<rfloor>"
  have x: "0 \<le> x" "x \<le> 99" using assms by (simp_all add: conf_ok_def x_def)
  have f0: "0 \<le> f" using x(1) by (simp add: f_def)
  have f99: "f \<le> 99" using x(2) by (simp add: f_def floor_le_iff)
  have lo: "of_int f \<le> x" unfolding f_def by (rule of_int_floor_le)
  have r: "py_round x = (if x - of_int f < 1 / 2 then f else if 1 / 2 < x - of_int f then f + 1
      else if even f then f else f + 1)"
    by (simp only: py_round_def Let_def f_def)
  have "f + 1 \<le> 99" if "\<not> x - of_int f < 1 / 2"
  proof -
    have "f \<noteq> 99"
    proof
      assume "f = 99"
      with lo have "99 \<le> x" by simp
      with x(2) have "x = 99" by simp
      with \<open>f = 99\<close> that show False by simp
    qed
    with f99 show ?thesis by simp
  qed
  with f0 f99 have "0 \<le> py_round x \<and> py_round x \<le> 99"
    unfolding r by (cases "x - of_int f < 1 / 2") auto
  then show ?thesis by (simp add: pct_ok_def x_def)
qed

section \<open>The assembled record\<close>

lemma py_round_whole [simp]:
  "py_round 0 = 0" "py_round (numeral w) = numeral w"
  by (simp_all add: py_round_def)

lemma pct_ok_50 [simp]: "pct_ok 50" "pct_ok 0"
  by (simp_all add: pct_ok_def)

lemma parse_text_total:
  "\<exists>r. parse_text fname raw vocab = Inr r \<and> list_all (\<lambda>(k, n). pct_ok n) (confidence r) \<and>
       length (projects r) \<le> 10"
proof -
  let ?t = "clean_text raw"
  obtain n c1 where 1: "extract_name ?t = Inr (n, c1)" "conf_ok c1"
    using extract_name_total by blast
  obtain cont c2 where 2: "extract_contacts ?t = (cont, c2)"
    by (cases "extract_contacts ?t")
  then have c2: "conf_ok c2"
    using extract_contacts_conf[of ?t] by simp
  obtain s c3 where 3: "extract_skills ?t vocab = Inr (s, c3)" "conf_ok c3"
    using extract_skills_total by blast
  obtain v c4 where 4: "extract_cgpa ?t = Inr (v, c4)" "conf_ok c4"
    using extract_cgpa_total by blast
  obtain ps c5 where 5: "extract_projects ?t = Inr (ps, c5)" "length ps \<le> 10" "conf_ok c5"
    using extract_projects_total by blast
  have half: "conf_ok (1 / 2)" by (simp add: conf_ok_def)
  show ?thesis
    unfolding parse_text_def Let_def
    by (simp add: 1 2 3 4 5 extract_experience_def section_confidence_map_def
        py_round_pct c2 half conf_ok_values)
qed

lemma section_confidence_map_pct:
  "list_all (\<lambda>(k, c). conf_ok c) d \<Longrightarrow> list_all (\<lambda>(k, n). pct_ok n) (section_confidence_map d)"
  by (induction d) (auto simp add: section_confidence_map_def py_round_pct)

text \<open>
  Claim C2. For every text and every vocabulary, each of the name, skills, CGPA and project
  extractors returns a result whose confidence lies in [0, 0.99], as do the confidences of
  the contact and experience extractors; the aggregator maps confidences in that range to
  percentages in [0, 99]; and every percentage of an assembled record lies in [0, 99].
  Confidences are exact rationals here, where the program has binary floating point.
\<close>

theorem confidence_bounds:
  "(\<exists>n c. extract_name text = Inr (n, c) \<and> conf_ok c) \<and>
   conf_ok (snd (extract_contacts text)) \<and>
   (\<exists>s c. extract_skills text vocab = Inr (s, c) \<and> conf_ok c) \<and>
   (\<exists>v c. extract_cgpa text = Inr (v, c) \<and> conf_ok c) \<and>
   (\<exists>ps c. extract_projects text = Inr (ps, c) \<and> conf_ok c) \<and>
   conf_ok (snd (extract_experience text)) \<and>
   (list_all (\<lambda>(k, c). conf_ok c) d \<longrightarrow> list_all (\<lambda>(k, n). pct_ok n) (section_confidence_map d)) \<and>
   (\<exists>r. parse_text fname raw vocab = Inr r \<and> list_all (\<lambda>(k, n). pct_ok n) (confidence r))"
proof -
  have "\<exists>ps c. extract_projects text = Inr (ps, c) \<and> conf_ok c"
    using extract_projects_total[of "text"] by blast
  moreover have "\<exists>r. parse_text fname raw vocab = Inr r \<and> list_all (\<lambda>(k, n). pct_ok n) (confidence r)"
    using parse_text_total[of fname raw vocab] by blast
  moreover have "conf_ok (snd (extract_experience text))"
    by (simp add: extract_experience_def conf_ok_values)
  ultimately show ?thesis
    using extract_name_total extract_contacts_conf extract_skills_total extract_cgpa_total
      section_confidence_map_pct by blast
qed

text \<open>A witness for the hypothesis of the aggregator part of C2.\<close>

theorem confidence_bounds_witness:
  "list_all (\<lambda>(k, c). conf_ok c) [(u ''name'', 85 / 100), (u ''skills'', 475 / 1000)] \<and>
   list_all (\<lambda>(k, n). pct_ok n) (section_confidence_map [(u ''name'', 85 / 100), (u ''skills'', 475 / 1000)])"
  using confidence_bounds[where d = "[(u ''name'', 85 / 100), (u ''skills'', 475 / 1000)]"]
  by (simp add: conf_ok_def)



lemma skill_not_in_empty:
  "skill \<noteq> [] \<Longrightarrow> re_search noflags (skill_re skill) [] = None"
  by (cases skill)
     (simp_all add: re_search_def match_at_def skill_re_def seqs_def lits_def py_lower_def)

lemma found_skills_empty_text:
  "[] \<notin> set vocab \<Longrightarrow> found_skills [] vocab = {}"
proof -
  assume "[] \<notin> set vocab"
  then have "filter (\<lambda>skill. re_search noflags (skill_re skill) (py_lower []) \<noteq> None) vocab = []"
    by (induction vocab) (auto simp add: py_lower_def skill_not_in_empty)
  then show ?thesis by (simp add: found_skills_def)
qed

lemma empty_text_parts:
  "clean_text [] = []"
  "extract_name [] = Inr (u ''Unknown'', 1 / 10)"
  "extract_contacts [] = ([], 0)"
  "extract_cgpa [] = Inr ([], 0)"
  "extract_projects [] = Inr ([], 0)"
  "is_kannada [] = False"
  "remove_duplicate_words (u ''Unknown'') = u ''Unknown''"
  "py_round (1 / 10 * 100) = 10" "py_round (0 * 100) = 0" "py_round (1 / 2 * 100) = 50"
  by code_simp+

text \<open>
  Claim C3, as amended. Every extractor returns a result on every text and vocabulary, and
  so does the assembly of the record. On the empty text, with a vocabulary that has no empty
  term, the record has the name Unknown, no contacts, no skills, no projects, the empty
  CGPA and the language English.
\<close>

theorem extraction_total:
  "(\<exists>n c. extract_name text = Inr (n, c)) \<and>
   (\<exists>s c. extract_skills text vocab = Inr (s, c)) \<and>
   (\<exists>v c. extract_cgpa text = Inr (v, c)) \<and>
   (\<exists>ps c. extract_projects text = Inr (ps, c)) \<and>
   (\<exists>r. parse_text fname raw vocab = Inr r) \<and>
   ([] \<notin> set vocab \<longrightarrow>
      parse_text fname [] vocab =
        Inr \<lparr>file_name = fname, name = u ''Unknown'', contacts = [], skills = [], cgpa = [],
             projects = [], projects_text = [], experience = [],
             confidence = [(u ''name'', 10), (u ''contact'', 0), (u ''skills'', 10),
               (u ''education'', 50), (u ''cgpa'', 0), (u ''projects'', 0), (u ''experience'', 0)],
             language = u ''English'', raw_text = []\<rparr>)"
proof -
  have empty: "parse_text fname [] vocab =
        Inr \<lparr>file_name = fname, name = u ''Unknown'', contacts = [], skills = [], cgpa = [],
             projects = [], projects_text = [], experience = [],
             confidence = [(u ''name'', 10), (u ''contact'', 0), (u ''skills'', 10),
               (u ''education'', 50), (u ''cgpa'', 0), (u ''projects'', 0), (u ''experience'', 0)],
             language = u ''English'', raw_text = []\<rparr>" if "[] \<notin> set vocab"
  proof -
    from that have "extract_skills [] vocab = Inr ([], 1 / 10)"
      by (simp add: extract_skills_def found_skills_empty_text)
    then show ?thesis
      unfolding parse_text_def Let_def empty_text_parts
      by (simp add: empty_text_parts extract_experience_def section_confidence_map_def)
  qed
  have "\<exists>ps c. extract_projects text = Inr (ps, c)"
    using extract_projects_total[of "text"] by blast
  moreover have "\<exists>r. parse_text fname raw vocab = Inr r"
    using parse_text_total[of fname raw vocab] by blast
  moreover have "\<exists>n c. extract_name text = Inr (n, c)"
    using extract_name_total[of "text"] by blast
  moreover have "\<exists>s c. extract_skills text vocab = Inr (s, c)"
    using extract_skills_total[of "text" vocab] by blast
  moreover have "\<exists>v c. extract_cgpa text = Inr (v, c)"
    using extract_cgpa_total[of "text"] by blast
  ultimately show ?thesis using empty by blast
qed

text \<open>A witness for C3: a vocabulary without an empty term.\<close>

theorem extraction_total_witness:
  "[] \<notin> set [u ''python'', u ''java''] \<and>
   parse_text (u ''cv.txt'') [] [u ''python'', u ''java''] =
        Inr \<lparr>file_name = u ''cv.txt'', name = u ''Unknown'', contacts = [], skills = [], cgpa = [],
             projects = [], projects_text = [], experience = [],
             confidence = [(u ''name'', 10), (u ''contact'', 0), (u ''skills'', 10),
               (u ''education'', 50), (u ''cgpa'', 0), (u ''projects'', 0), (u ''experience'', 0)],
             language = u ''English'', raw_text = []\<rparr>"
  using extraction_total[where vocab = "[u ''python'', u ''java'']" and fname = "u ''cv.txt''"]
  by (simp add: u_def)

text \<open>
  Claim C3 as stated fails for a vocabulary with an empty term: the empty term is found in
  the empty text, so the skills of the record are not empty.
\<close>

theorem empty_skill_term_found:
  "(case parse_text [] [] [[]] of Inl e \<Rightarrow> False | Inr r \<Rightarrow> skills r = [[]])"
  by code_simp

text \<open>
  Claim C4. With the vocabulary \<open>["react"]\<close>, the text "I used reactive programming" gives
  no skill, and the text "I used React daily" gives exactly \<open>["React"]\<close>.
\<close>

theorem skills_whole_word:
  "extract_skills (u ''I used reactive programming'') [u ''react''] = Inr ([], 1 / 10) \<and>
   extract_skills (u ''I used React daily'') [u ''react''] = Inr ([u ''React''], 98 / 100)"
  by code_simp

text \<open>
  Claim C10. With the label CGPA (or GPA) on one line and the number 8.50 on the next, and
  no form with /10 or "out of 10", the CGPA extractor returns the empty string with
  confidence 0; with both on one line it returns the number.
\<close>

theorem cgpa_label_same_line:
  "extract_cgpa (u ''CGPA'' @ [10] @ u ''8.50'') = Inr ([], 0) \<and>
   extract_cgpa (u ''GPA'' @ [10] @ u ''8.50'') = Inr ([], 0) \<and>
   extract_cgpa (u ''CGPA 8.50'') = Inr (u ''8.50'', 99 / 100)"
  by code_simp

section \<open>Substitution of runs, and the normaliser\<close>

lemma rep_greedy_always:
  "rep_greedy P lo None (\<lambda>b' r'. Some (F b' r')) b xs =
     (if lo \<le> length (takeWhile P xs) then Some (F (rev (takeWhile P xs) @ b) (dropWhile P xs))
      else None)"
proof (induction xs arbitrary: lo b)
  case Nil
  then show ?case by simp
next
  case (Cons c cs)
  show ?case
  proof (cases "P c")
    case False
    then show ?thesis by simp
  next
    case True
    have "lo \<le> Suc (length (takeWhile P cs)) \<longleftrightarrow> lo - 1 \<le> length (takeWhile P cs)"
      by auto
    moreover have "\<not> lo - 1 \<le> length (takeWhile P cs) \<Longrightarrow> lo \<noteq> 0"
      by auto
    ultimately show ?thesis
      using True by (simp add: Cons.IH)
  qed
qed

lemma match_at_run:
  "match_at f (Rep a lo None True) b xs =
     (if lo \<le> length (takeWhile (atom_ok f a) xs)
      then Some \<lparr>whole = takeWhile (atom_ok f a) xs, groups = []\<rparr> else None)"
  by (simp add: match_at_def rep_greedy_always)

lemma sub_from_skip:
  "n \<le> length xs \<Longrightarrow>
   sub_from f r repl b xs n = sub_from f r repl (rev (take n xs) @ b) (drop n xs) 0"
proof (induction xs arbitrary: n b)
  case Nil
  then show ?case by simp
next
  case (Cons c cs)
  show ?case
  proof (cases n)
    case 0
    then show ?thesis by simp
  next
    case (Suc m)
    with Cons.prems have "m \<le> length cs" by simp
    from Cons.IH[OF this, of "c # b"] Suc show ?thesis by simp
  qed
qed

lemma sub_from_run:
  "0 < lo \<Longrightarrow> sub_from noflags (Rep a lo None True) repl b xs 0 = sub_run a lo repl xs"
proof (induction xs arbitrary: b rule: length_induct)
  case (1 xs)
  let ?P = "atom_ok noflags a"
  let ?r = "Rep a lo None True"
  show ?case
  proof (cases xs)
    case Nil
    with 1(2) show ?thesis by (simp add: sub_run_def match_at_run)
  next
    case (Cons c cs)
    show ?thesis
    proof (cases "lo \<le> length (takeWhile ?P xs)")
      case False
      have "length cs < length xs" using Cons by simp
      with 1 have "sub_from noflags ?r repl (c # b) cs 0 = sub_run a lo repl cs"
        "sub_from noflags ?r repl [c] cs 0 = sub_run a lo repl cs"
        by blast+
      with False Cons show ?thesis
        by (simp add: sub_run_def match_at_run)
    next
      case True
      let ?tw = "takeWhile ?P xs"
      from True 1(2) have ne: "?tw \<noteq> []" by auto
      then have n1: "length ?tw - 1 \<le> length cs"
        using Cons length_takeWhile_le[of ?P xs] by simp
      have dr: "drop (length ?tw - 1) cs = dropWhile ?P xs"
      proof -
        have "drop (length ?tw) xs = dropWhile ?P xs"
          by (simp add: dropWhile_eq_drop)
        moreover have "length ?tw = Suc (length ?tw - 1)" using ne by (cases ?tw) auto
        ultimately show ?thesis using Cons by (metis drop_Suc_Cons)
      qed
      have "length (dropWhile ?P xs) < length xs"
        using ne by (metis length_append takeWhile_dropWhile_id length_greater_0_conv less_add_same_cancel2)
      with 1 have ih: "\<And>b'. sub_from noflags ?r repl b' (dropWhile ?P xs) 0 = sub_run a lo repl (dropWhile ?P xs)"
        by blast
      have "sub_from noflags ?r repl b xs 0 = repl @ sub_from noflags ?r repl (c # b) cs (length ?tw - 1)"
        using True ne Cons by (simp add: match_at_run)
      also have "\<dots> = repl @ sub_run a lo repl (dropWhile ?P xs)"
        by (simp only: sub_from_skip[OF n1] dr ih)
      finally have lhs: "sub_from noflags ?r repl b xs 0 = repl @ sub_run a lo repl (dropWhile ?P xs)" .
      have "sub_run a lo repl xs = repl @ sub_from noflags ?r repl [c] cs (length ?tw - 1)"
        using True ne Cons by (simp add: match_at_run sub_run_def)
      also have "\<dots> = repl @ sub_run a lo repl (dropWhile ?P xs)"
        by (simp only: sub_from_skip[OF n1] dr ih)
      finally show ?thesis using lhs by simp
    qed
  qed
qed

lemma sub_run_Nil: "0 < lo \<Longrightarrow> sub_run a lo repl [] = []"
  by (simp add: sub_run_def match_at_run)

lemma sub_run_Cons:
  assumes "0 < lo"
  shows "sub_run a lo repl (c # cs) =
     (if lo \<le> length (takeWhile (atom_ok noflags a) (c # cs))
      then repl @ sub_run a lo repl (dropWhile (atom_ok noflags a) (c # cs))
      else c # sub_run a lo repl cs)"
proof -
  let ?P = "atom_ok noflags a"
  let ?r = "Rep a lo None True"
  let ?xs = "c # cs"
  let ?tw = "takeWhile ?P ?xs"
  show ?thesis
  proof (cases "lo \<le> length ?tw")
    case False
    then show ?thesis
      using sub_from_run[OF assms, of a repl "[c]" cs]
      by (simp add: sub_run_def match_at_run)
  next
    case True
    with assms have ne: "?tw \<noteq> []" by (auto split: if_splits)
    then have n1: "length ?tw - 1 \<le> length cs"
      using length_takeWhile_le[of ?P ?xs] by simp
    have dr: "drop (length ?tw - 1) cs = dropWhile ?P ?xs"
    proof -
      have "drop (length ?tw) ?xs = dropWhile ?P ?xs"
        by (simp add: dropWhile_eq_drop)
      moreover have "length ?tw = Suc (length ?tw - 1)" using ne by (cases ?tw) auto
      ultimately show ?thesis by (metis drop_Suc_Cons)
    qed
    have "sub_run a lo repl ?xs = repl @ sub_from noflags ?r repl [c] cs (length ?tw - 1)"
      using True ne by (simp add: match_at_run sub_run_def)
    also have "\<dots> = repl @ sub_run a lo repl (dropWhile ?P ?xs)"
      by (simp only: sub_from_skip[OF n1] dr sub_from_run[OF assms])
    finally show ?thesis using True by simp
  qed
qed

lemma sublist_trans: "sublist xs ys \<Longrightarrow> sublist ys zs \<Longrightarrow> sublist xs zs"
  by (rule sublist_order.order.trans)

lemma sublist2_Cons:
  "sublist [a, b] (c # ys) \<longleftrightarrow> (c = a \<and> (\<exists>ys'. ys = b # ys')) \<or> sublist [a, b] ys"
  by (cases ys) (auto simp add: sublist_Cons_right)

lemma sublist3_Cons:
  "sublist [a, a, a] (c # ys) \<longleftrightarrow> (c = a \<and> (\<exists>ys'. ys = a # a # ys')) \<or> sublist [a, a, a] ys"
proof (cases ys)
  case Nil
  then show ?thesis by (simp add: sublist_Cons_right)
next
  case (Cons y zs)
  then show ?thesis by (cases zs) (auto simp add: sublist_Cons_right)
qed

lemma blank_atom: "atom_ok noflags (ACls [Ch 32, Ch 9]) = is_blank"
  by (rule ext) (simp add: cls_ok_def noflags_def is_blank_def)

lemma nl_atom: "atom_ok noflags (ALit 10) = (\<lambda>c. c = 10)"
  by (rule ext) (simp add: noflags_def)

lemma collapse_Nil: "collapse_blanks [] = []"
  by (simp add: collapse_blanks_def sub_run_Nil)

lemma collapse_Cons:
  "collapse_blanks (c # cs) =
     (if is_blank c then 32 # collapse_blanks (dropWhile is_blank cs) else c # collapse_blanks cs)"
  unfolding collapse_blanks_def by (subst sub_run_Cons) (simp_all add: blank_atom)

lemma squeeze_Nil: "squeeze_newlines [] = []"
  by (simp add: squeeze_newlines_def sub_run_Nil)

lemma squeeze_Cons:
  "squeeze_newlines (c # cs) =
     (if 3 \<le> nl_run (c # cs) then 10 # 10 # squeeze_newlines (dropWhile (\<lambda>c. c = 10) (c # cs))
      else c # squeeze_newlines cs)"
  unfolding squeeze_newlines_def nl_run_def by (subst sub_run_Cons) (simp_all add: nl_atom)

lemma cr_sub_map:
  "sub_from noflags cr_re [10] b x 0 = map (\<lambda>c. if c = 13 then 10 else c) x"
  by (induction x arbitrary: b) (simp_all add: match_at_def cr_re_def noflags_def)

lemma clean_text_stages:
  "clean_text t =
     py_strip (squeeze_newlines (map (\<lambda>c. if c = 13 then 10 else c)
       (collapse_blanks (py_replace_char 0 [32] t))))"
  by (simp add: clean_text_def Let_def re_sub_def cr_sub_map collapse_blanks_def squeeze_newlines_def
      blanks_re_def newlines3_re_def sub_from_run u_def)

text \<open>Fixed points of the stages.\<close>

lemma replace_fix: "old \<notin> set y \<Longrightarrow> py_replace_char old new y = y"
  by (induction y) (auto simp add: py_replace_char_def)

lemma collapse_fix: "9 \<notin> set y \<Longrightarrow> \<not> sublist [32, 32] y \<Longrightarrow> collapse_blanks y = y"
proof (induction y)
  case Nil
  then show ?case by (simp add: collapse_Nil)
next
  case (Cons c cs)
  from Cons.prems have cs: "9 \<notin> set cs" "\<not> sublist [32, 32] cs"
    by (auto simp add: sublist2_Cons)
  show ?case
  proof (cases "is_blank c")
    case False
    with Cons.IH[OF cs] show ?thesis by (simp add: collapse_Cons)
  next
    case True
    with Cons.prems have c: "c = 32" by (auto simp add: is_blank_def)
    have "dropWhile is_blank cs = cs"
    proof (cases cs)
      case Nil
      then show ?thesis by simp
    next
      case (Cons d ds)
      with Cons.prems c have "d \<noteq> 32" "d \<noteq> 9" by (auto simp add: sublist2_Cons)
      with Cons show ?thesis by (simp add: is_blank_def)
    qed
    with True c Cons.IH[OF cs] show ?thesis by (simp add: collapse_Cons)
  qed
qed

lemma map_cr_fix: "13 \<notin> set y \<Longrightarrow> map (\<lambda>c. if c = 13 then 10 else c) y = y"
  by (induction y) auto

lemma nl_run_prefix: "3 \<le> nl_run y \<Longrightarrow> \<exists>ys. y = 10 # 10 # 10 # ys"
proof -
  assume a: "3 \<le> nl_run y"
  obtain a1 r1 where 1: "y = a1 # r1" using a by (cases y) (auto simp add: nl_run_def)
  with a have a1: "a1 = 10" and b: "2 \<le> nl_run r1" by (auto simp add: nl_run_def split: if_splits)
  obtain a2 r2 where 2: "r1 = a2 # r2" using b by (cases r1) (auto simp add: nl_run_def)
  with b have a2: "a2 = 10" and c: "1 \<le> nl_run r2" by (auto simp add: nl_run_def split: if_splits)
  obtain a3 r3 where 3: "r2 = a3 # r3" using c by (cases r2) (auto simp add: nl_run_def)
  with c have "a3 = 10" by (auto simp add: nl_run_def split: if_splits)
  with 1 2 3 a1 a2 show ?thesis by simp
qed

lemma squeeze_fix: "\<not> sublist [10, 10, 10] y \<Longrightarrow> squeeze_newlines y = y"
proof (induction y)
  case Nil
  then show ?case by (simp add: squeeze_Nil)
next
  case (Cons c cs)
  from Cons.prems have cs: "\<not> sublist [10, 10, 10] cs"
    by (simp add: sublist3_Cons)
  have "\<not> 3 \<le> nl_run (c # cs)"
  proof
    assume "3 \<le> nl_run (c # cs)"
    from nl_run_prefix[OF this] Cons.prems show False by (auto simp add: sublist3_Cons)
  qed
  with Cons.IH[OF cs] show ?case by (simp add: squeeze_Cons)
qed

text \<open>What the stages produce.\<close>

lemma replace_set: "old \<notin> set new \<Longrightarrow> old \<notin> set (py_replace_char old new x)"
  by (induction x) (auto simp add: py_replace_char_def)

lemma collapse_out:
  "set (collapse_blanks x) \<subseteq> set x \<union> {32} \<and> 9 \<notin> set (collapse_blanks x) \<and>
   \<not> sublist [32, 32] (collapse_blanks x) \<and>
   (\<forall>ys. collapse_blanks x = 32 # ys \<longrightarrow> (\<exists>c cs. x = c # cs \<and> is_blank c))"
proof (induction x rule: length_induct)
  case (1 x)
  show ?case
  proof (cases x)
    case Nil
    then show ?thesis by (simp add: collapse_Nil)
  next
    case (Cons c cs)
    show ?thesis
    proof (cases "is_blank c")
      case False
      have "length cs < length x" using Cons by simp
      with 1 have ih: "set (collapse_blanks cs) \<subseteq> set cs \<union> {32}" "9 \<notin> set (collapse_blanks cs)"
        "\<not> sublist [32, 32] (collapse_blanks cs)"
        by blast+
      from False have c: "c \<noteq> 32" "c \<noteq> 9" by (auto simp add: is_blank_def)
      have e: "collapse_blanks x = c # collapse_blanks cs"
        using False Cons by (simp add: collapse_Cons)
      show ?thesis
        unfolding e using ih c Cons by (auto simp add: sublist2_Cons)
    next
      case True
      let ?d = "dropWhile is_blank cs"
      have "length ?d < length x" using Cons length_dropWhile_le[of is_blank cs] by simp
      with 1 have ih: "set (collapse_blanks ?d) \<subseteq> set ?d \<union> {32}" "9 \<notin> set (collapse_blanks ?d)"
        "\<not> sublist [32, 32] (collapse_blanks ?d)"
        "\<forall>ys. collapse_blanks ?d = 32 # ys \<longrightarrow> (\<exists>c cs. ?d = c # cs \<and> is_blank c)"
        by blast+
      have nohead: "collapse_blanks ?d \<noteq> 32 # ys" for ys
      proof
        assume "collapse_blanks ?d = 32 # ys"
        with ih(4) obtain e es where "?d = e # es" "is_blank e" by blast
        then show False using hd_dropWhile[of is_blank cs] by auto
      qed
      have e: "collapse_blanks x = 32 # collapse_blanks ?d"
        using True Cons by (simp add: collapse_Cons)
      have "set ?d \<subseteq> set cs" by (rule set_dropWhileD[THEN subsetI])
      then show ?thesis
        unfolding e using ih(1,2,3) nohead True Cons by (auto simp add: sublist2_Cons)
    qed
  qed
qed

lemma nl_run_Cons: "nl_run (c # cs) = (if c = 10 then Suc (nl_run cs) else 0)"
  by (simp add: nl_run_def)

lemma nl_run_dropWhile: "nl_run (dropWhile (\<lambda>c. c = 10) x) = 0"
proof (cases "dropWhile (\<lambda>c. c = 10) x")
  case Nil
  then show ?thesis by (simp only: nl_run_def takeWhile.simps list.size)
next
  case (Cons d ds)
  then have "d \<noteq> 10" using hd_dropWhile[of "\<lambda>c. c = 10" x] by auto
  with Cons show ?thesis by (simp add: nl_run_def)
qed

lemma squeeze_out:
  "set (squeeze_newlines x) \<subseteq> set x \<union> {10} \<and>
   nl_run (squeeze_newlines x) = min 2 (nl_run x) \<and>
   \<not> sublist [10, 10, 10] (squeeze_newlines x) \<and>
   (\<not> sublist [32, 32] x \<longrightarrow> \<not> sublist [32, 32] (squeeze_newlines x)) \<and>
   (\<forall>ys. squeeze_newlines x = 32 # ys \<longrightarrow> (\<exists>cs. x = 32 # cs))"
proof (induction x rule: length_induct)
  case (1 x)
  show ?case
  proof (cases x)
    case Nil
    then show ?thesis by (simp add: squeeze_Nil nl_run_def)
  next
    case (Cons c cs)
    show ?thesis
    proof (cases "3 \<le> nl_run x")
      case True
      let ?d = "dropWhile (\<lambda>c. c = 10) x"
      from nl_run_prefix[OF True] obtain zs where x: "x = 10 # 10 # 10 # zs" ..
      then have "length ?d < length x"
        using length_dropWhile_le[of "\<lambda>c. c = 10" zs] by simp
      with 1 have ih: "set (squeeze_newlines ?d) \<subseteq> set ?d \<union> {10}"
        "nl_run (squeeze_newlines ?d) = min 2 (nl_run ?d)"
        "\<not> sublist [10, 10, 10] (squeeze_newlines ?d)"
        "\<not> sublist [32, 32] ?d \<longrightarrow> \<not> sublist [32, 32] (squeeze_newlines ?d)"
        by blast+
      have r0: "nl_run (squeeze_newlines ?d) = 0"
        using ih(2) by (simp add: nl_run_dropWhile)
      then have nohead: "squeeze_newlines ?d \<noteq> 10 # ys" for ys
        by (auto simp add: nl_run_Cons)
      have e: "squeeze_newlines x = 10 # 10 # squeeze_newlines ?d"
        using True Cons by (simp add: squeeze_Cons)
      have sub: "sublist ?d x" by simp
      have "set ?d \<subseteq> set x" by (rule set_mono_sublist[OF sub])
      moreover have "\<not> sublist [32, 32] x \<Longrightarrow> \<not> sublist [32, 32] ?d"
        using sub sublist_trans by blast
      moreover have "min 2 (nl_run x) = 2" using True by simp
      ultimately show ?thesis
        unfolding e using ih r0 nohead
        by (simp add: sublist2_Cons sublist3_Cons nl_run_Cons) blast
    next
      case False
      have "length cs < length x" using Cons by simp
      with 1 have ih: "set (squeeze_newlines cs) \<subseteq> set cs \<union> {10}"
        "nl_run (squeeze_newlines cs) = min 2 (nl_run cs)"
        "\<not> sublist [10, 10, 10] (squeeze_newlines cs)"
        "\<not> sublist [32, 32] cs \<longrightarrow> \<not> sublist [32, 32] (squeeze_newlines cs)"
        "\<forall>ys. squeeze_newlines cs = 32 # ys \<longrightarrow> (\<exists>cs'. cs = 32 # cs')"
        by blast+
      have e: "squeeze_newlines x = c # squeeze_newlines cs"
        using False Cons by (simp add: squeeze_Cons)
      have run: "nl_run (c # squeeze_newlines cs) = min 2 (nl_run x)"
        using False ih(2) Cons by (auto simp add: nl_run_Cons)
      have no3: "\<not> sublist [10, 10, 10] (c # squeeze_newlines cs)"
      proof
        assume "sublist [10, 10, 10] (c # squeeze_newlines cs)"
        with ih(3) obtain ys where "c = 10" "squeeze_newlines cs = 10 # 10 # ys"
          by (auto simp add: sublist3_Cons)
        then have "nl_run (c # squeeze_newlines cs) \<ge> 3" by (simp add: nl_run_Cons)
        with run show False by simp
      qed
      have no2: "\<not> sublist [32, 32] (c # squeeze_newlines cs)" if "\<not> sublist [32, 32] x"
      proof
        assume a: "sublist [32, 32] (c # squeeze_newlines cs)"
        from that Cons have cs: "\<not> sublist [32, 32] cs" by (simp add: sublist2_Cons)
        with a ih(4) obtain ys where "c = 32" "squeeze_newlines cs = 32 # ys"
          by (auto simp add: sublist2_Cons)
        with ih(5) obtain cs' where "cs = 32 # cs'" by blast
        with \<open>c = 32\<close> that Cons show False by (simp add: sublist2_Cons)
      qed
      show ?thesis
        unfolding e using ih(1) run no3 no2 Cons by auto
    qed
  qed
qed

lemma map_cr_out:
  "13 \<notin> set (map (\<lambda>c. if c = 13 then 10 else c) (x :: ustr))"
  "0 \<notin> set x \<Longrightarrow> 0 \<notin> set (map (\<lambda>c. if c = 13 then 10 else c) x)"
  "9 \<notin> set x \<Longrightarrow> 9 \<notin> set (map (\<lambda>c. if c = 13 then 10 else c) x)"
  by (induction x) auto

lemma map_cr_no_spaces:
  "\<not> sublist [32, 32] x \<Longrightarrow> \<not> sublist [32, 32] (map (\<lambda>c. if c = 13 then 10 else c) (x :: ustr))"
proof (induction x)
  case Nil
  then show ?case by simp
next
  case (Cons c cs)
  then show ?case
    by (cases cs) (auto simp add: sublist2_Cons split: if_splits)
qed

lemma pipeline_normal:
  "normal_text (squeeze_newlines (map (\<lambda>c. if c = 13 then 10 else c)
     (collapse_blanks (py_replace_char 0 [32] t))))"
proof -
  let ?r = "py_replace_char 0 [32] t"
  let ?c = "collapse_blanks ?r"
  let ?m = "map (\<lambda>c. if c = 13 then 10 else c) ?c"
  let ?q = "squeeze_newlines ?m"
  have r: "0 \<notin> set ?r" by (rule replace_set) simp
  have c: "0 \<notin> set ?c" "9 \<notin> set ?c" "\<not> sublist [32, 32] ?c"
    using collapse_out[of ?r] r by auto
  have m: "0 \<notin> set ?m" "9 \<notin> set ?m" "13 \<notin> set ?m" "\<not> sublist [32, 32] ?m"
    using c by (simp_all only: map_cr_out map_cr_no_spaces not_False_eq_True)
  have "set ?q \<subseteq> set ?m \<union> {10}" "\<not> sublist [10, 10, 10] ?q" "\<not> sublist [32, 32] ?q"
    using squeeze_out[of ?m] m(4) by blast+
  with m show ?thesis
    unfolding normal_text_def by auto
qed

lemma normal_fix:
  assumes "normal_text y"
  shows "squeeze_newlines (map (\<lambda>c. if c = 13 then 10 else c)
     (collapse_blanks (py_replace_char 0 [32] y))) = y"
proof -
  from assms have a: "0 \<notin> set y" "9 \<notin> set y" "13 \<notin> set y" "\<not> sublist [32, 32] y"
    "\<not> sublist [10, 10, 10] y"
    by (simp_all add: normal_text_def)
  show ?thesis
    by (simp only: replace_fix[OF a(1)] collapse_fix[OF a(2,4)] map_cr_fix[OF a(3)] squeeze_fix[OF a(5)])
qed

lemma normal_sublist: "sublist y z \<Longrightarrow> normal_text z \<Longrightarrow> normal_text y"
  unfolding normal_text_def using set_mono_sublist[of y z] sublist_trans[of _ y z] by blast

lemma strip_pred_sublist: "sublist (rev (dropWhile P (rev (dropWhile P s)))) s"
proof -
  have "sublist (dropWhile P (rev (dropWhile P s))) (rev (dropWhile P s))" by simp
  then have "sublist (rev (dropWhile P (rev (dropWhile P s)))) (dropWhile P s)"
    by (simp add: sublist_rev_left)
  moreover have "sublist (dropWhile P s) s" by simp
  ultimately show ?thesis by (rule sublist_trans)
qed

text \<open>
  Claim C8. Normalising a normalised text changes nothing:
  \<open>clean_text (clean_text t) = clean_text t\<close> for every text \<open>t\<close>.
\<close>

theorem clean_text_idempotent: "clean_text (clean_text t) = clean_text t"
proof -
  let ?z = "squeeze_newlines (map (\<lambda>c. if c = 13 then 10 else c)
     (collapse_blanks (py_replace_char 0 [32] t)))"
  have y: "clean_text t = py_strip ?z" by (rule clean_text_stages)
  have "sublist (py_strip ?z) ?z"
    unfolding py_strip_def by (rule strip_pred_sublist)
  then have "normal_text (py_strip ?z)"
    using pipeline_normal by (rule normal_sublist)
  from normal_fix[OF this] have "clean_text (py_strip ?z) = py_strip (py_strip ?z)"
    by (simp only: clean_text_stages)
  also have "\<dots> = py_strip ?z"
    unfolding py_strip_def by (rule strip_pred_idem)
  finally show ?thesis by (simp only: y)
qed

section \<open>The matcher: what a pattern consumes, and the leftmost search\<close>













section \<open>Contacts in a text that contains the sample sentence\<close>








section \<open>The priority of the CGPA label\<close>





lemma rep_greedy_hi0 [simp]: "rep_greedy p 0 (Some 0) k b xs = k b xs"
  by (cases xs) simp_all







section \<open>The fallbacks of the name extractor\<close>

lemma noflags_sel [simp]:
  "ignorecase noflags = False" "dotall noflags = False" "multiline noflags = False"
  by (simp_all add: noflags_def)
















end
